theory Spec2Isabelle
  imports Main "HOL-Library.Word"
begin

unbundle bit_operations_syntax

section \<open>The filter store of \<^verbatim>\<open>filters/filters.go\<close>\<close>

text \<open>
  A shallow embedding of package \<^verbatim>\<open>filters\<close>: the filter records, the store with its
  configuration, the downloader, the refresh scheduler's loop body and the swap applier.
  The mutex \<^verbatim>\<open>confLock\<close> is not modelled: every operation is run to its end before the
  next one starts. The disk, the HTTP client and the clock are explicit arguments.
\<close>

subsection \<open>Data model\<close>

type_synonym uint64 = "64 word"

text \<open>
  A \<^verbatim>\<open>time.Time\<close> is the number of nanoseconds since the Unix epoch; \<^verbatim>\<open>Unix()\<close> is its
  whole seconds. The zero \<^verbatim>\<open>time.Time\<close> is 1 January of year 1.
\<close>

type_synonym time = int

definition Unix :: "time \<Rightarrow> int" where
  "Unix t = t div 1000000000"

definition zero_time :: time where
  "zero_time = - 62135596800000000000"

record Filter =
  ID :: uint64
  Enabled :: bool
  Name :: string
  URL :: string
  Path :: string
  RuleCount :: uint64
  LastUpdated :: time
  newID :: uint64
  nextUpdate :: time

text \<open>The zero value of the struct, as \<^verbatim>\<open>make([]Filter, n)\<close> and \<^verbatim>\<open>Filter{}\<close> give it.\<close>

definition zero_Filter :: Filter where
  "zero_Filter = \<lparr>ID = 0, Enabled = False, Name = [], URL = [], Path = [], RuleCount = 0,
     LastUpdated = zero_time, newID = 0, nextUpdate = zero_time\<rparr>"

text \<open>
  What \<^verbatim>\<open>client.Get\<close> answers for a URL: a transport error, or a response with its
  status code and the result of reading its body (\<open>None\<close> when \<^verbatim>\<open>ioutil.ReadAll\<close> fails).
\<close>

datatype http_reply = GetError | Response int "string option"

record Conf =
  FilterDir :: string
  UpdateIntervalHours :: "32 word"
  HTTPClient :: "string \<Rightarrow> http_reply"
  Proxylist :: "Filter list"

text \<open>An \<^verbatim>\<open>EventHandler\<close> is an opaque callback, named by a number; calling it is an event.\<close>

type_synonym EventHandler = nat

record Filters =
  filtersUpdated :: bool
  updateTaskRunning :: bool
  conf :: Conf
  Users :: "EventHandler list"

definition EventBeforeUpdate :: nat where
  "EventBeforeUpdate = 0"

definition EventAfterUpdate :: nat where
  "EventAfterUpdate = 1"

datatype error =
    DuplicateFilter
  | TransportError
  | StatusCodeError int
  | ReadError
  | CouldntDownload string error
  | WriteError
  | NilPointerDereference

text \<open>
  The disk: the bytes of every file, by path, the paths that can be written, and the
  renames the operating system permits (it refuses one for lack of permission, for a
  target that is a directory, and so on). \<^verbatim>\<open>file.SafeWrite\<close> (library golibs) replaces
  the file's content as a whole or fails. \<^verbatim>\<open>os.Rename\<close> fails when the source does not
  exist or the rename is not permitted, and leaves the disk as it was; otherwise it moves
  the source over the target.
\<close>

record disk =
  files :: "string \<rightharpoonup> string"
  writable :: "string \<Rightarrow> bool"
  can_rename :: "string \<Rightarrow> string \<Rightarrow> bool"

definition SafeWrite :: "string \<Rightarrow> string \<Rightarrow> disk \<Rightarrow> error option \<times> disk" where
  "SafeWrite fname body d =
     (if writable d fname then (None, d\<lparr>files := (files d)(fname \<mapsto> body)\<rparr>)
      else (Some WriteError, d))"

definition os_Rename :: "string \<Rightarrow> string \<Rightarrow> disk \<Rightarrow> bool \<times> disk" where
  "os_Rename oldpath newpath d =
     (case files d oldpath of
        None \<Rightarrow> (False, d)
      | Some b \<Rightarrow>
          if can_rename d oldpath newpath
          then (True, d\<lparr>files := ((files d)(oldpath := None))(newpath \<mapsto> b)\<rparr>)
          else (False, d))"

subsection \<open>File names\<close>

text \<open>\<^verbatim>\<open>fmt.Sprintf("%d", n)\<close> for an unsigned number.\<close>

definition digit :: "nat \<Rightarrow> char" where
  "digit k = ''0123456789'' ! k"

fun decimal :: "nat \<Rightarrow> string" where
  "decimal n = (if n < 10 then [digit n] else decimal (n div 10) @ [digit (n mod 10)])"

declare decimal.simps [simp del]

text \<open>
  \<^verbatim>\<open>filepath.Join\<close> and \<^verbatim>\<open>filepath.Clean\<close> of the Go library on a slash-separated
  path: the path is cut at every slash, empty and \<^verbatim>\<open>.\<close> elements are dropped, a \<^verbatim>\<open>..\<close>
  removes the element before it (or stays, in front of a relative path), and the elements
  left are joined again.
\<close>

fun split_on :: "char \<Rightarrow> string \<Rightarrow> string list" where
  "split_on sep [] = [[]]"
| "split_on sep (c # cs) =
     (if c = sep then [] # split_on sep cs
      else (case split_on sep cs of
              [] \<Rightarrow> [[c]]
            | l # ls \<Rightarrow> (c # l) # ls))"

definition clean_step :: "bool \<Rightarrow> string list \<Rightarrow> string \<Rightarrow> string list" where
  "clean_step rooted st e =
     (if e = [] \<or> e = ''.'' then st
      else if e = ''..'' then
        (if st \<noteq> [] \<and> last st \<noteq> ''..'' then butlast st
         else if rooted then st
         else st @ [e])
      else st @ [e])"

fun join_slash :: "string list \<Rightarrow> string" where
  "join_slash [] = []"
| "join_slash [e] = e"
| "join_slash (e # es) = e @ ''/'' @ join_slash es"

definition Clean :: "string \<Rightarrow> string" where
  "Clean path =
     (let rooted = (path \<noteq> [] \<and> hd path = CHR ''/'');
          out = (if rooted then ''/'' else []) @
                join_slash (foldl (clean_step rooted) [] (split_on (CHR ''/'') path))
      in if out = [] then ''.'' else out)"

definition Join :: "string \<Rightarrow> string \<Rightarrow> string" where
  "Join a b =
     (if a \<noteq> [] then Clean (a @ ''/'' @ b)
      else if b \<noteq> [] then Clean b
      else [])"

definition filterPath :: "Conf \<Rightarrow> Filter \<Rightarrow> string" where
  "filterPath c f = Join (FilterDir c) (decimal (unat (ID f)) @ ''.txt'')"

text \<open>\<^verbatim>\<open>nextFilterID\<close>: the clock's whole seconds, converted to \<^verbatim>\<open>uint64\<close>.\<close>

definition nextFilterID :: "time \<Rightarrow> uint64" where
  "nextFilterID now = word_of_int (Unix now)"

subsection \<open>Downloader\<close>

definition download :: "(string \<Rightarrow> http_reply) \<Rightarrow> string \<Rightarrow> error + string" where
  "download client url =
     (case client url of
        GetError \<Rightarrow> Inl TransportError
      | Response code body \<Rightarrow>
          if code \<noteq> 200 then Inl (StatusCodeError code)
          else (case body of None \<Rightarrow> Inl ReadError | Some b \<Rightarrow> Inr b))"

text \<open>
  Modelled from the spec: \<^verbatim>\<open>util.SplitNext\<close>, of package \<^verbatim>\<open>util\<close> of this repository,
  is not among the source files. The spec has the body split into lines: the call returns
  the text before the first separator and leaves the text after that separator in
  \<^verbatim>\<open>data\<close>; with no separator left it returns all of \<^verbatim>\<open>data\<close> and leaves it empty.
\<close>

definition SplitNext :: "string \<Rightarrow> char \<Rightarrow> string \<times> string" where
  "SplitNext data splitBy =
     (takeWhile (\<lambda>c. c \<noteq> splitBy) data, drop 1 (dropWhile (\<lambda>c. c \<noteq> splitBy) data))"

definition newline :: char where
  "newline = CHR 0x0A"

text \<open>The counting loop of \<^verbatim>\<open>parseFilter\<close>; \<open>n\<close> is \<^verbatim>\<open>rulesCount\<close>.\<close>

function count_rules :: "string \<Rightarrow> nat \<Rightarrow> nat" where
  "count_rules data n =
     (if length data \<noteq> 0 then
        (let (line, rest) = SplitNext data newline
         in if length line = 0 \<or> hd line = CHR ''#'' \<or> hd line = CHR ''!''
            then count_rules rest n
            else count_rules rest (n + 1))
      else n)"
  by pat_completeness auto
termination
proof (relation "measure (\<lambda>(data, n). length data)")
  show "wf (measure (\<lambda>(data, n). length data))"
    by simp
next
  fix data :: string and n :: nat and x line rest
  assume "length data \<noteq> 0" and "x = SplitNext data newline" and "(line, rest) = x"
  then have "rest = drop 1 (dropWhile (\<lambda>c. c \<noteq> newline) data)" and "data \<noteq> []"
    by (auto simp: SplitNext_def)
  moreover have "length (dropWhile (\<lambda>c. c \<noteq> newline) data) \<le> length data"
    by (rule length_dropWhile_le)
  ultimately have "length rest < length data"
    by (cases data) auto
  then show "((rest, n), (data, n)) \<in> measure (\<lambda>(data, n). length data)"
    and "((rest, n + 1), (data, n)) \<in> measure (\<lambda>(data, n). length data)"
    by simp_all
qed

declare count_rules.simps [simp del]

definition parseFilter :: "Filter \<Rightarrow> string \<Rightarrow> error option \<times> Filter" where
  "parseFilter f body = (None, f\<lparr>RuleCount := word_of_nat (count_rules body 0)\<rparr>)"

text \<open>
  The spec's classification, in its own words: the lines of the body that are not empty
  and do not start with \<^verbatim>\<open>#\<close> or \<^verbatim>\<open>!\<close>.
\<close>

definition significant :: "string \<Rightarrow> bool" where
  "significant line = (line \<noteq> [] \<and> hd line \<noteq> CHR ''#'' \<and> hd line \<noteq> CHR ''!'')"

definition classify :: "string \<Rightarrow> nat" where
  "classify body = length (filter significant (split_on newline body))"

text \<open>
  \<^verbatim>\<open>downloadFilter\<close> works on the caller's record \<open>f\<close> and gives it back: the rule count
  is set as soon as the body is parsed, \<^verbatim>\<open>LastUpdated\<close> only after the file is written.
  \<open>now\<close> is the clock when the file has been saved.
\<close>

definition downloadFilter :: "Conf \<Rightarrow> Filter \<Rightarrow> time \<Rightarrow> disk \<Rightarrow> error option \<times> Filter \<times> disk" where
  "downloadFilter c f now d =
     (case download (HTTPClient c) (URL f) of
        Inl err \<Rightarrow> (Some (CouldntDownload (URL f) err), f, d)
      | Inr body \<Rightarrow>
          (case parseFilter f body of
             (Some err, f1) \<Rightarrow> (Some err, f1, d)
           | (None, f1) \<Rightarrow>
               (let fname = filterPath c f1
                in case SafeWrite fname body d of
                     (Some err, d1) \<Rightarrow> (Some err, f1, d1)
                   | (None, d1) \<Rightarrow> (None, f1\<lparr>LastUpdated := now\<rparr>, d1))))"

subsection \<open>Store operations\<close>

definition Init :: "Filters \<Rightarrow> Conf \<Rightarrow> Filters" where
  "Init fs c = fs\<lparr>conf := c\<rparr>"

definition AddUser :: "Filters \<Rightarrow> EventHandler \<Rightarrow> Filters" where
  "AddUser fs handler = fs\<lparr>Users := Users fs @ [handler]\<rparr>"

text \<open>
  \<^verbatim>\<open>List\<close>: the result slice is made with \<^verbatim>\<open>len(fs.conf.Proxylist)\<close> elements, each the
  zero value, and every record is then appended to it.
\<close>

definition List :: "Filters \<Rightarrow> nat \<Rightarrow> Filter list" where
  "List fs flags =
     foldl (\<lambda>ff f. ff @ [f\<lparr>Path := filterPath (conf fs) f\<rparr>])
       (replicate (length (Proxylist (conf fs))) zero_Filter)
       (Proxylist (conf fs))"

text \<open>
  \<^verbatim>\<open>Add\<close>: \<open>t_id\<close> is the clock read by \<^verbatim>\<open>nextFilterID\<close>, \<open>t_saved\<close> the clock read by
  \<^verbatim>\<open>downloadFilter\<close>. The first loop returns at the first record with the same name or
  the same URL.
\<close>

fun name_or_url_exists :: "Filter \<Rightarrow> Filter list \<Rightarrow> bool" where
  "name_or_url_exists nf [] = False"
| "name_or_url_exists nf (f # fs) =
     (if Name f = Name nf \<or> URL f = URL nf then True else name_or_url_exists nf fs)"

definition Add :: "Filters \<Rightarrow> Filter \<Rightarrow> time \<Rightarrow> time \<Rightarrow> disk \<Rightarrow> error option \<times> Filters \<times> disk" where
  "Add fs nf t_id t_saved d =
     (if name_or_url_exists nf (Proxylist (conf fs)) then (Some DuplicateFilter, fs, d)
      else
        (let nf1 = nf\<lparr>ID := nextFilterID t_id\<rparr>;
             nf2 = nf1\<lparr>Enabled := True\<rparr>
         in case downloadFilter (conf fs) nf2 t_saved d of
              (Some err, nf3, d1) \<Rightarrow> (Some err, fs, d1)
            | (None, nf3, d1) \<Rightarrow>
                (None, fs\<lparr>conf := (conf fs)\<lparr>Proxylist := Proxylist (conf fs) @ [nf3]\<rparr>\<rparr>, d1)))"

text \<open>
  \<^verbatim>\<open>Delete\<close>: the loop \<^verbatim>\<open>for _, f := range ...\<close> has one variable \<open>f\<close> for all its
  iterations (the loop semantics of Go before version 1.22, the language of this code
  base, which still imports \<^verbatim>\<open>io/ioutil\<close>), and \<^verbatim>\<open>found = &f\<close> is the address of that
  variable. The loop state is the new slice \<open>nf\<close>, whether \<open>found\<close> is set, and the value of
  \<open>f\<close>; what \<open>found\<close> points to after the loop is the value \<open>f\<close> was given last.
\<close>

fun Delete_loop :: "string \<Rightarrow> Filter list \<Rightarrow> Filter list \<times> bool \<times> Filter \<Rightarrow> Filter list \<times> bool \<times> Filter" where
  "Delete_loop url [] s = s"
| "Delete_loop url (x # xs) (nf, found, f) =
     (if URL x = url then Delete_loop url xs (nf, True, x)
      else Delete_loop url xs (nf @ [x], found, x))"

definition Delete :: "Filters \<Rightarrow> string \<Rightarrow> Filter option \<times> Filters" where
  "Delete fs url =
     (case Delete_loop url (Proxylist (conf fs)) ([], False, zero_Filter) of
        (nf, found, f) \<Rightarrow>
          if \<not> found then (None, fs)
          else (Some (f\<lparr>Path := filterPath (conf fs) f\<rparr>),
                fs\<lparr>conf := (conf fs)\<lparr>Proxylist := nf\<rparr>\<rparr>))"

definition StatusNotFound :: int where
  "StatusNotFound = 1"

definition StatusChangedEnabled :: int where
  "StatusChangedEnabled = 2"

definition StatusChangedURL :: int where
  "StatusChangedURL = 4"

text \<open>
  \<^verbatim>\<open>Modify\<close>: the loop variable \<open>f\<close> of \<^verbatim>\<open>for _, f := range ...\<close> is a copy of the slice
  element. The assignments to its fields change the copy, which the loop gives back here
  next to the status; the slice itself is never written, so the store comes back as it was.
\<close>

fun Modify_loop :: "string \<Rightarrow> bool \<Rightarrow> string \<Rightarrow> string \<Rightarrow> Filter list \<Rightarrow> int \<times> Filter option" where
  "Modify_loop url enabled name newURL [] = (0, None)"
| "Modify_loop url enabled name newURL (x # xs) =
     (if URL x = url then
        (let f = x\<lparr>Name := name\<rparr>;
             st = 0;
             (f, st) = (if Enabled f \<noteq> enabled
                        then (f\<lparr>Enabled := enabled\<rparr>, st OR StatusChangedEnabled)
                        else (f, st));
             (f, st) = (if URL f \<noteq> newURL
                        then (f\<lparr>URL := newURL\<rparr>, st OR StatusChangedURL)
                        else (f, st))
         in (st, Some f))
      else Modify_loop url enabled name newURL xs)"

definition Modify :: "Filters \<Rightarrow> string \<Rightarrow> bool \<Rightarrow> string \<Rightarrow> string \<Rightarrow> int \<times> Filters" where
  "Modify fs url enabled name newURL =
     (case Modify_loop url enabled name newURL (Proxylist (conf fs)) of
        (st, f) \<Rightarrow> if st = 0 then (StatusNotFound, fs) else (st, fs))"

subsection \<open>Refresh scheduler and swap applier\<close>

text \<open>
  \<^verbatim>\<open>time.Duration(hours) * time.Hour\<close>, a product of two \<^verbatim>\<open>int64\<close> that wraps around.
\<close>

definition updateInterval :: "Conf \<Rightarrow> int" where
  "updateInterval c = sint ((ucast (UpdateIntervalHours c) :: 64 word) * 3600000000000)"

text \<open>
  \<^verbatim>\<open>getNextToUpdate\<close> returns a pointer into the slice, here the index of the record, or
  \<^verbatim>\<open>nil\<close>, here \<open>None\<close>; the record it returns has its \<^verbatim>\<open>nextUpdate\<close> moved on.
\<close>

fun getNextToUpdate_loop :: "Conf \<Rightarrow> time \<Rightarrow> nat \<Rightarrow> Filter list \<Rightarrow> nat option \<times> Filter list" where
  "getNextToUpdate_loop c now i [] = (None, [])"
| "getNextToUpdate_loop c now i (f # fs) =
     (if Enabled f \<and> Unix (nextUpdate f) \<le> Unix now
      then (Some i, f\<lparr>nextUpdate := now + updateInterval c\<rparr> # fs)
      else (case getNextToUpdate_loop c now (Suc i) fs of (r, fs') \<Rightarrow> (r, f # fs')))"

definition getNextToUpdate :: "Filters \<Rightarrow> time \<Rightarrow> nat option \<times> Filters" where
  "getNextToUpdate fs now =
     (case getNextToUpdate_loop (conf fs) now 0 (Proxylist (conf fs)) of
        (r, pl) \<Rightarrow> (r, fs\<lparr>conf := (conf fs)\<lparr>Proxylist := pl\<rparr>\<rparr>))"

fun modifyUpdated_loop :: "Filter \<Rightarrow> Filter list \<Rightarrow> bool \<times> Filter list" where
  "modifyUpdated_loop uf [] = (False, [])"
| "modifyUpdated_loop uf (f # fs) =
     (if URL f = URL uf
      then (True, f\<lparr>newID := ID uf, RuleCount := RuleCount uf, LastUpdated := LastUpdated uf\<rparr> # fs)
      else (case modifyUpdated_loop uf fs of (found, fs') \<Rightarrow> (found, f # fs')))"

definition modifyUpdated :: "Filters \<Rightarrow> Filter \<Rightarrow> Filters" where
  "modifyUpdated fs uf =
     (case modifyUpdated_loop uf (Proxylist (conf fs)) of
        (found, pl) \<Rightarrow>
          if found then fs\<lparr>filtersUpdated := True, conf := (conf fs)\<lparr>Proxylist := pl\<rparr>\<rparr>
          else fs)"

text \<open>
  What the swap applier does to the outside, in order: a call of an observer with a flag,
  or \<^verbatim>\<open>os.Rename\<close> of a file onto another with its success.
\<close>

datatype event = Notified EventHandler nat | Renamed string string bool

definition NotifyUsers :: "Filters \<Rightarrow> nat \<Rightarrow> event list" where
  "NotifyUsers fs flags = map (\<lambda>u. Notified u flags) (Users fs)"

fun applyUpdate_loop :: "Conf \<Rightarrow> Filter list \<Rightarrow> disk \<Rightarrow> Filter list \<times> disk \<times> event list" where
  "applyUpdate_loop c [] d = ([], d, [])"
| "applyUpdate_loop c (f # fs) d =
     (if newID f \<noteq> 0 \<and> newID f \<noteq> ID f then
        (let name = filterPath c f;
             newName = filterPath c (zero_Filter\<lparr>ID := newID f\<rparr>)
         in case os_Rename newName name d of
              (ok, d1) \<Rightarrow>
                (case applyUpdate_loop c fs d1 of
                   (fs', d2, evs) \<Rightarrow> (f\<lparr>newID := 0\<rparr> # fs', d2, Renamed newName name ok # evs)))
      else (case applyUpdate_loop c fs d of (fs', d2, evs) \<Rightarrow> (f # fs', d2, evs)))"

definition applyUpdate :: "Filters \<Rightarrow> disk \<Rightarrow> Filters \<times> disk \<times> event list" where
  "applyUpdate fs d =
     (if \<not> filtersUpdated fs then (fs, d, [])
      else
        (let fs1 = fs\<lparr>filtersUpdated := False\<rparr>;
             before = NotifyUsers fs1 EventBeforeUpdate
         in case applyUpdate_loop (conf fs1) (Proxylist (conf fs1)) d of
              (pl, d1, evs) \<Rightarrow>
                (let fs2 = fs1\<lparr>conf := (conf fs1)\<lparr>Proxylist := pl\<rparr>\<rparr>
                 in (fs2, d1, before @ evs @ NotifyUsers fs2 EventAfterUpdate))))"

text \<open>
  One pass through the body of the loop of \<^verbatim>\<open>updateFilters\<close>. \<open>t_scan\<close>, \<open>t_id\<close> and
  \<open>t_saved\<close> are the clock as \<^verbatim>\<open>getNextToUpdate\<close>, \<^verbatim>\<open>nextFilterID\<close> and
  \<^verbatim>\<open>downloadFilter\<close> read it. The statement \<^verbatim>\<open>uf := *f\<close> comes before the test
  \<^verbatim>\<open>f == nil\<close>: it copies the record the pointer names, and panics on \<^verbatim>\<open>nil\<close>.
\<close>

datatype outcome =
    Panicked error
  | Slept "event list"
  | DownloadFailed Filter error
  | Updated Filter

definition deref :: "Filters \<Rightarrow> nat option \<Rightarrow> error + Filter" where
  "deref fs p = (case p of None \<Rightarrow> Inl NilPointerDereference | Some i \<Rightarrow> Inr (Proxylist (conf fs) ! i))"

definition updateFilters_body :: "Filters \<Rightarrow> disk \<Rightarrow> time \<Rightarrow> time \<Rightarrow> time \<Rightarrow> outcome \<times> Filters \<times> disk" where
  "updateFilters_body fs d t_scan t_id t_saved =
     (case getNextToUpdate fs t_scan of
        (f, fs1) \<Rightarrow>
          (case deref fs1 f of
             Inl err \<Rightarrow> (Panicked err, fs1, d)
           | Inr uf \<Rightarrow>
               if f = None then
                 (case applyUpdate fs1 d of (fs2, d2, evs) \<Rightarrow> (Slept evs, fs2, d2))
               else
                 (let uf1 = uf\<lparr>ID := nextFilterID t_id\<rparr>
                  in case downloadFilter (conf fs1) uf1 t_saved d of
                       (Some err, uf2, d1) \<Rightarrow> (DownloadFailed uf2 err, fs1, d1)
                     | (None, uf2, d1) \<Rightarrow> (Updated uf2, modifyUpdated fs1 uf2, d1))))"

subsection \<open>Auxiliary notions\<close>

text \<open>
  A record has a pending revision when \<^verbatim>\<open>applyUpdate\<close> acts on it; the file of the pending
  revision is named by \<^verbatim>\<open>newID\<close>.
\<close>

definition pending :: "Filter \<Rightarrow> bool" where
  "pending f = (newID f \<noteq> 0 \<and> newID f \<noteq> ID f)"

definition pendingPath :: "Conf \<Rightarrow> Filter \<Rightarrow> string" where
  "pendingPath c f = filterPath c (zero_Filter\<lparr>ID := newID f\<rparr>)"

text \<open>The number a string of decimal digits stands for.\<close>

definition digits_value :: "string \<Rightarrow> nat" where
  "digits_value s = foldl (\<lambda>a c. 10 * a + (of_char c - 48)) 0 s"

text \<open>
  Example inputs: an HTTP client without network and one that serves a fixed body, an
  enabled filter, a store in directory \<^verbatim>\<open>d\<close>, and a disk with the given files, on
  which every write and every rename is permitted.
\<close>

definition no_network :: "string \<Rightarrow> http_reply" where
  "no_network url = GetError"

definition serving :: "string \<Rightarrow> string \<Rightarrow> http_reply" where
  "serving body url = Response 200 (Some body)"

definition a_filter :: "uint64 \<Rightarrow> string \<Rightarrow> string \<Rightarrow> Filter" where
  "a_filter i name url = zero_Filter\<lparr>ID := i, Enabled := True, Name := name, URL := url\<rparr>"

definition a_store :: "(string \<Rightarrow> http_reply) \<Rightarrow> Filter list \<Rightarrow> Filters" where
  "a_store client pl =
     \<lparr>filtersUpdated = False, updateTaskRunning = True,
      conf = \<lparr>FilterDir = ''d'', UpdateIntervalHours = 1, HTTPClient = client, Proxylist = pl\<rparr>,
      Users = []\<rparr>"

definition a_disk :: "(string \<times> string) list \<Rightarrow> disk" where
  "a_disk kvs = \<lparr>files = map_of kvs, writable = (\<lambda>p. True), can_rename = (\<lambda>p q. True)\<rparr>"


definition a_site :: "(string \<times> string) list \<Rightarrow> string \<Rightarrow> http_reply" where
  "a_site pages url =
     (case map_of pages url of None \<Rightarrow> Response 404 None | Some b \<Rightarrow> Response 200 (Some b))"

text \<open>
  A store with a pending revision 2 for its record of id 1 and two observers, and a disk
  with both files.
\<close>

definition swap_store :: Filters where
  "swap_store = (a_store no_network [(a_filter 1 ''list'' ''http://a'')\<lparr>newID := 2\<rparr>])
     \<lparr>filtersUpdated := True, Users := [10, 11]\<rparr>"

definition swap_disk :: disk where
  "swap_disk = a_disk [(''d/1.txt'', ''old''), (''d/2.txt'', ''new'')]"

text \<open>A store with one record of id 100, whose server has a body ready.\<close>

definition add_store :: Filters where
  "add_store = a_store (serving ''ruleB'') [a_filter 100 ''A'' ''http://a'']"

definition add_disk :: disk where
  "add_disk = a_disk [(''d/100.txt'', ''ruleA'')]"

definition due_store :: Filters where
  "due_store = a_store (serving ''new'') [a_filter 100 ''list'' ''http://a'']"

definition due_disk :: disk where
  "due_disk = a_disk [(''d/100.txt'', ''old'')]"

text \<open>A store with two records that are both due, and their files.\<close>

definition two_store :: Filters where
  "two_store = a_store (a_site [(''http://a'', ''ruleA''), (''http://b'', ''ruleB'')])
     [a_filter 1 ''A'' ''http://a'', a_filter 2 ''B'' ''http://b'']"

definition two_disk :: disk where
  "two_disk = a_disk [(''d/1.txt'', ''oldA''), (''d/2.txt'', ''oldB'')]"

text \<open>
  One pass through the loop body with the clock at \<open>t\<close> throughout, keeping the store and
  the disk.
\<close>

definition run_body :: "Filters \<times> disk \<Rightarrow> time \<Rightarrow> Filters \<times> disk" where
  "run_body s t = snd (updateFilters_body (fst s) (snd s) t t t)"


text \<open>
  A pass through the loop body with its three clock readings, and a run of such passes,
  each from the store and disk the one before left.
\<close>

definition pass :: "Filters \<times> disk \<Rightarrow> time \<times> time \<times> time \<Rightarrow> outcome \<times> Filters \<times> disk" where
  "pass s t = updateFilters_body (fst s) (snd s) (fst t) (fst (snd t)) (snd (snd t))"

fun run_passes :: "Filters \<times> disk \<Rightarrow> (time \<times> time \<times> time) list \<Rightarrow> Filters \<times> disk" where
  "run_passes s [] = s"
| "run_passes s (t # ts) = run_passes (snd (pass s t)) ts"

text \<open>
  Of a run of passes: every download that succeeds in it is for a URL other than \<open>u\<close> and
  under an id other than \<open>n\<close> and \<open>a\<close>.
\<close>

fun downloads_apart :: "string \<Rightarrow> uint64 \<Rightarrow> uint64 \<Rightarrow> Filters \<times> disk \<Rightarrow> (time \<times> time \<times> time) list \<Rightarrow> bool" where
  "downloads_apart u n a s [] = True"
| "downloads_apart u n a s (t # ts) =
     ((case fst (pass s t) of
         Updated uf \<Rightarrow> URL uf \<noteq> u \<and> ID uf \<noteq> n \<and> ID uf \<noteq> a
       | _ \<Rightarrow> True)
      \<and> downloads_apart u n a (snd (pass s t)) ts)"

text \<open>
  What holds of store and disk from the download of record \<open>i\<close> (then \<open>F\<close>, with pending id
  \<open>n\<close> and body \<open>body\<close>) to the swap: the record has its URL, active id and pending id,
  no other record has that URL or one of the two ids, the pending file holds the body, and
  the active file is as on the disk \<open>d0\<close>.
\<close>

definition slot_ok :: "nat \<Rightarrow> string \<Rightarrow> uint64 \<Rightarrow> uint64 \<Rightarrow> nat \<Rightarrow> Filter \<Rightarrow> bool" where
  "slot_ok i u a n j f =
     (if j = i then URL f = u \<and> ID f = a \<and> newID f = n
      else URL f \<noteq> u \<and> ID f \<noteq> n \<and> ID f \<noteq> a \<and> newID f \<noteq> n \<and> newID f \<noteq> a)"

definition records_ok :: "nat \<Rightarrow> string \<Rightarrow> uint64 \<Rightarrow> uint64 \<Rightarrow> Filter list \<Rightarrow> bool" where
  "records_ok i u a n pl = (i < length pl \<and> (\<forall>j < length pl. slot_ok i u a n j (pl ! j)))"

definition awaiting_swap :: "Conf \<Rightarrow> disk \<Rightarrow> nat \<Rightarrow> Filter \<Rightarrow> uint64 \<Rightarrow> string \<Rightarrow> Filters \<times> disk \<Rightarrow> bool" where
  "awaiting_swap c0 d0 i F n body s =
     (FilterDir (conf (fst s)) = FilterDir c0
      \<and> filtersUpdated (fst s)
      \<and> records_ok i (URL F) (ID F) n (Proxylist (conf (fst s)))
      \<and> files (snd s) (filterPath c0 (zero_Filter\<lparr>ID := n\<rparr>)) = Some body
      \<and> files (snd s) (filterPath c0 F) = files d0 (filterPath c0 F)
      \<and> can_rename (snd s) = can_rename d0)"

section \<open>Properties\<close>

subsection \<open>Rule count\<close>

lemma split_on_not_Nil: "split_on sep s \<noteq> []"
  by (induction s) (auto split: list.splits)

lemma split_on_no_sep: "sep \<notin> set s \<Longrightarrow> split_on sep s = [s]"
  by (induction s) (auto split: list.splits)

lemma split_on_append:
  "sep \<notin> set l \<Longrightarrow> split_on sep (l @ sep # r) = l # split_on sep r"
  by (induction l) (auto split: list.splits simp: split_on_not_Nil)

lemma SplitNext_no_sep: "sep \<notin> set data \<Longrightarrow> SplitNext data sep = (data, [])"
  by (induction data) (auto simp: SplitNext_def)

lemma SplitNext_append: "sep \<notin> set l \<Longrightarrow> SplitNext (l @ sep # r) sep = (l, r)"
  by (induction l) (auto simp: SplitNext_def)

lemma classify_Nil: "classify [] = 0"
  by (simp add: classify_def significant_def)

text \<open>One call of \<open>SplitNext\<close> takes the first line off the body.\<close>

lemma classify_step:
  assumes "data \<noteq> []" and sn: "SplitNext data newline = (line, rest)"
  shows "classify data = (if significant line then 1 else 0) + classify rest"
proof (cases "newline \<in> set data")
  case False
  then have "line = data" "rest = []"
    using sn by (simp_all add: SplitNext_no_sep)
  with False show ?thesis
    by (simp add: classify_def split_on_no_sep significant_def)
next
  case True
  then obtain l r where d: "data = l @ newline # r" and l: "newline \<notin> set l"
    by (auto dest: split_list_first)
  then have "line = l" "rest = r"
    using sn by (simp_all add: SplitNext_append)
  then show ?thesis
    by (simp add: classify_def d split_on_append [OF l])
qed

lemma count_rules_classify: "count_rules data n = n + classify data"
proof (induction data n rule: count_rules.induct)
  case (1 data n)
  show ?case
  proof (cases "data = []")
    case True
    then show ?thesis
      by (simp add: count_rules.simps [of "[]"] classify_Nil)
  next
    case False
    obtain line rest where sn: "SplitNext data newline = (line, rest)"
      by (cases "SplitNext data newline")
    have sig: "significant line \<longleftrightarrow>
        \<not> (length line = 0 \<or> hd line = CHR ''#'' \<or> hd line = CHR ''!'')"
      by (auto simp: significant_def)
    show ?thesis
    proof (cases "significant line")
      case True
      with sig have "count_rules data n = count_rules rest (n + 1)"
        using False sn by (simp add: count_rules.simps [of data])
      also have "\<dots> = n + 1 + classify rest"
        using "1.IH"(2) [OF _ sn [symmetric] refl] False True sig by simp
      finally show ?thesis
        using classify_step [OF False sn] True by simp
    next
      case nsig: False
      with sig have "count_rules data n = count_rules rest n"
        using False sn by (simp add: count_rules.simps [of data])
      also have "\<dots> = n + classify rest"
        using "1.IH"(1) [OF _ sn [symmetric] refl] False nsig sig by simp
      finally show ?thesis
        using classify_step [OF False sn] nsig by simp
    qed
  qed
qed

lemma significant_lines_le_length:
  "length (filter significant (split_on sep s)) \<le> length s"
proof (induction s)
  case Nil
  then show ?case by (simp add: significant_def)
next
  case (Cons c cs)
  show ?case
  proof (cases "c = sep")
    case True
    with Cons show ?thesis by (simp add: significant_def)
  next
    case False
    obtain l ls where sp: "split_on sep cs = l # ls"
      using split_on_not_Nil [of sep cs] by (cases "split_on sep cs") auto
    with Cons have "length (filter significant ls) \<le> length cs"
      by (simp split: if_splits)
    with False sp show ?thesis by simp
  qed
qed

lemma classify_le_length: "classify body \<le> length body"
  by (simp add: classify_def significant_lines_le_length)

text \<open>
  C10. \<^verbatim>\<open>parseFilter\<close> never fails and sets \<^verbatim>\<open>RuleCount\<close> to the number of lines of the
  body that are not empty and do not start with \<^verbatim>\<open>#\<close> or \<^verbatim>\<open>!\<close> (converted to
  \<^verbatim>\<open>uint64\<close>, which is the number itself for every body shorter than \<open>2 ^ 64\<close> bytes).
  The body \<^verbatim>\<open>"# comment\nrule1\n\nrule2\n"\<close> has rule count 2.
\<close>

theorem parseFilter_counts_significant_lines:
  "fst (parseFilter f body) = None
   \<and> RuleCount (snd (parseFilter f body)) = word_of_nat (classify body)
   \<and> (length body < 2 ^ 64 \<longrightarrow> unat (RuleCount (snd (parseFilter f body))) = classify body)
   \<and> RuleCount (snd (parseFilter f
        (''# comment'' @ [newline] @ ''rule1'' @ [newline, newline] @ ''rule2'' @ [newline]))) = 2"
proof -
  have rc: "RuleCount (snd (parseFilter f b)) = word_of_nat (classify b)" for b
    by (simp add: parseFilter_def count_rules_classify)
  have "unat (word_of_nat (classify body) :: uint64) = classify body" if "length body < 2 ^ 64"
  proof -
    have "classify body < 2 ^ 64"
      using classify_le_length [of body] that by simp
    then show ?thesis
      by (simp add: unat_of_nat)
  qed
  moreover have "classify (''# comment'' @ [newline] @ ''rule1'' @ [newline, newline] @ ''rule2'' @ [newline]) = 2"
    by (simp add: classify_def significant_def newline_def)
  ultimately show ?thesis
    by (simp add: rc) (simp add: parseFilter_def)
qed

theorem parseFilter_counts_significant_lines_witness:
  "length (''!x'' @ [newline] @ ''r'') < 2 ^ 64
   \<and> unat (RuleCount (snd (parseFilter zero_Filter (''!x'' @ [newline] @ ''r'')))) = 1"
proof -
  have len: "length (''!x'' @ [newline] @ ''r'') < 2 ^ 64"
    by simp
  have "classify (''!x'' @ [newline] @ ''r'') = 1"
    by (simp add: classify_def significant_def newline_def)
  with len parseFilter_counts_significant_lines [of zero_Filter "''!x'' @ [newline] @ ''r''"]
  show ?thesis
    by simp
qed

subsection \<open>File names are injective in the id\<close>

lemmas fixtures = no_network_def serving_def a_filter_def a_store_def a_disk_def zero_Filter_def

lemmas path_defs = filterPath_def Join_def Clean_def clean_step_def decimal.simps digit_def

text \<open>
  For a file name proper (not empty, without a slash, neither \<^verbatim>\<open>.\<close> nor \<^verbatim>\<open>..\<close>),
  the joined path is a prefix that depends on the directory only, followed by the name.
\<close>

lemma split_on_append_sep:
  "split_on sep (xs @ sep # ys) = split_on sep xs @ split_on sep ys"
  by (induction xs) (auto split: list.splits simp: split_on_not_Nil)

lemma join_slash_snoc:
  "join_slash (st @ [a]) = (if st = [] then a else join_slash st @ ''/'' @ a)"
  by (induction st rule: join_slash.induct) auto

lemma clean_step_name:
  "a \<noteq> [] \<Longrightarrow> a \<noteq> ''.'' \<Longrightarrow> a \<noteq> ''..'' \<Longrightarrow> clean_step rooted st a = st @ [a]"
  by (simp add: clean_step_def)

lemma Join_name:
  assumes "a \<noteq> []" "CHR ''/'' \<notin> set a" "a \<noteq> ''.''" "a \<noteq> ''..''"
  shows "Join dir a =
    (if dir = [] then []
     else (if hd dir = CHR ''/'' then ''/'' else []) @
          (let st = foldl (clean_step (hd dir = CHR ''/'')) [] (split_on (CHR ''/'') dir)
           in if st = [] then [] else join_slash st @ ''/'')) @ a"
proof (cases "dir = []")
  case True
  have "hd a \<noteq> CHR ''/''"
    using assms(1,2) by (cases a) auto
  with True assms show ?thesis
    by (simp add: Join_def Clean_def split_on_no_sep clean_step_name)
next
  case False
  then have hd: "hd (dir @ CHR ''/'' # a) = hd dir"
    by simp
  show ?thesis
    using False assms
    by (simp add: Join_def Clean_def Let_def hd split_on_append_sep split_on_no_sep
        clean_step_name join_slash_snoc)
qed

lemma Join_name_inj:
  assumes "a \<noteq> []" "CHR ''/'' \<notin> set a" "a \<noteq> ''.''" "a \<noteq> ''..''"
    and "b \<noteq> []" "CHR ''/'' \<notin> set b" "b \<noteq> ''.''" "b \<noteq> ''..''"
    and "Join dir a = Join dir b"
  shows "a = b"
  using assms(9) unfolding Join_name [OF assms(1-4)] Join_name [OF assms(5-8)]
  by simp

lemma below_ten:
  "k < 10 \<Longrightarrow> k = 0 \<or> k = 1 \<or> k = 2 \<or> k = 3 \<or> k = 4 \<or> k = 5 \<or> k = 6 \<or> k = 7 \<or> k = 8 \<or> k = (9::nat)"
  by arith

lemma digit_value: "k < 10 \<Longrightarrow> (of_char (digit k) :: nat) = 48 + k"
  by (drule below_ten) (elim disjE, simp_all add: digit_def)

lemma digit_not_slash: "k < 10 \<Longrightarrow> CHR ''/'' \<noteq> digit k"
  by (drule below_ten) (elim disjE, simp_all add: digit_def)

lemma digits_value_decimal: "digits_value (decimal n) = n"
proof (induction n rule: decimal.induct)
  case (1 n)
  show ?case
  proof (cases "n < 10")
    case True
    then show ?thesis
      by (simp add: decimal.simps [of n] digits_value_def digit_value)
  next
    case False
    then have "digits_value (decimal n) = 10 * digits_value (decimal (n div 10)) + n mod 10"
      by (simp add: decimal.simps [of n] digits_value_def digit_value)
    with 1 False show ?thesis
      by simp
  qed
qed

lemma decimal_inj: "decimal n = decimal m \<Longrightarrow> n = m"
  by (metis digits_value_decimal)

lemma decimal_no_slash: "CHR ''/'' \<notin> set (decimal n)"
proof (induction n rule: decimal.induct)
  case (1 n)
  show ?case
  proof (cases "n < 10")
    case True
    then show ?thesis
      by (simp add: decimal.simps [of n] digit_not_slash)
  next
    case False
    with 1 show ?thesis
      by (simp add: decimal.simps [of n] digit_not_slash)
  qed
qed

lemma decimal_not_Nil: "decimal n \<noteq> []"
  by (simp add: decimal.simps [of n])

lemma filterPath_inj:
  assumes "filterPath c f = filterPath c g"
  shows "ID f = ID g"
proof -
  let ?a = "decimal (unat (ID f)) @ ''.txt''" and ?b = "decimal (unat (ID g)) @ ''.txt''"
  have a: "?a \<noteq> []" "CHR ''/'' \<notin> set ?a" "?a \<noteq> ''.''" "?a \<noteq> ''..''"
    using decimal_not_Nil [of "unat (ID f)"] by (auto simp: decimal_no_slash)
  have b: "?b \<noteq> []" "CHR ''/'' \<notin> set ?b" "?b \<noteq> ''.''" "?b \<noteq> ''..''"
    using decimal_not_Nil [of "unat (ID g)"] by (auto simp: decimal_no_slash)
  have "?a = ?b"
    using Join_name_inj [OF a b] assms by (simp add: filterPath_def)
  then have "unat (ID f) = unat (ID g)"
    by (simp add: decimal_inj)
  then show ?thesis
    by (rule unsigned_word_eqI)
qed

subsection \<open>The loop of the swap applier\<close>

lemma applyUpdate_loop_pending:
  "pending f \<Longrightarrow> applyUpdate_loop c (f # xs) d =
     (f\<lparr>newID := 0\<rparr> # fst (applyUpdate_loop c xs (snd (os_Rename (pendingPath c f) (filterPath c f) d))),
      fst (snd (applyUpdate_loop c xs (snd (os_Rename (pendingPath c f) (filterPath c f) d)))),
      Renamed (pendingPath c f) (filterPath c f) (fst (os_Rename (pendingPath c f) (filterPath c f) d))
        # snd (snd (applyUpdate_loop c xs (snd (os_Rename (pendingPath c f) (filterPath c f) d)))))"
  by (simp add: pending_def pendingPath_def Let_def split_beta)

lemma applyUpdate_loop_idle:
  "\<not> pending f \<Longrightarrow> applyUpdate_loop c (f # xs) d =
     (f # fst (applyUpdate_loop c xs d), fst (snd (applyUpdate_loop c xs d)),
      snd (snd (applyUpdate_loop c xs d)))"
  unfolding pending_def by (auto simp: split_beta)

lemma applyUpdate_loop_records:
  "fst (applyUpdate_loop c xs d) = map (\<lambda>f. if pending f then f\<lparr>newID := 0\<rparr> else f) xs"
proof (induction xs arbitrary: d)
  case Nil
  then show ?case by simp
next
  case (Cons f xs)
  then show ?case
    by (cases "pending f") (simp_all add: applyUpdate_loop_pending applyUpdate_loop_idle del: applyUpdate_loop.simps)
qed

lemma applyUpdate_loop_events:
  "\<exists>oks. length oks = length (filter pending xs) \<and>
     snd (snd (applyUpdate_loop c xs d)) =
       map2 (\<lambda>f ok. Renamed (pendingPath c f) (filterPath c f) ok) (filter pending xs) oks"
proof (induction xs arbitrary: d)
  case Nil
  then show ?case by simp
next
  case (Cons f xs)
  show ?case
  proof (cases "pending f")
    case False
    then show ?thesis
      using Cons [of d] by (simp add: applyUpdate_loop_idle del: applyUpdate_loop.simps)
  next
    case True
    let ?r = "os_Rename (pendingPath c f) (filterPath c f) d"
    obtain oks where "length oks = length (filter pending xs)"
      and "snd (snd (applyUpdate_loop c xs (snd ?r))) =
         map2 (\<lambda>f ok. Renamed (pendingPath c f) (filterPath c f) ok) (filter pending xs) oks"
      using Cons [of "snd ?r"] by blast
    then have "length (fst ?r # oks) = length (filter pending (f # xs)) \<and>
        snd (snd (applyUpdate_loop c (f # xs) d)) =
          map2 (\<lambda>f ok. Renamed (pendingPath c f) (filterPath c f) ok) (filter pending (f # xs)) (fst ?r # oks)"
      using True by (simp add: applyUpdate_loop_pending del: applyUpdate_loop.simps)
    then show ?thesis
      by blast
  qed
qed

lemma os_Rename_other:
  "src \<noteq> p \<Longrightarrow> dst \<noteq> p \<Longrightarrow> files (snd (os_Rename src dst d)) p = files d p"
  by (auto simp: os_Rename_def split: option.splits)

lemma applyUpdate_loop_frame:
  "(\<And>f. f \<in> set xs \<Longrightarrow> pending f \<Longrightarrow> pendingPath c f \<noteq> p \<and> filterPath c f \<noteq> p) \<Longrightarrow>
     files (fst (snd (applyUpdate_loop c xs d))) p = files d p"
proof (induction xs arbitrary: d)
  case Nil
  then show ?case by simp
next
  case (Cons f xs)
  have IH: "files (fst (snd (applyUpdate_loop c xs d'))) p = files d' p" for d'
    using Cons.IH Cons.prems by simp
  show ?case
  proof (cases "pending f")
    case False
    then show ?thesis
      using IH [of d] by (simp add: applyUpdate_loop_idle del: applyUpdate_loop.simps)
  next
    case True
    have "pendingPath c f \<noteq> p \<and> filterPath c f \<noteq> p"
      using Cons.prems [of f] True by simp
    then have "files (snd (os_Rename (pendingPath c f) (filterPath c f) d)) p = files d p"
      by (simp add: os_Rename_other)
    then show ?thesis
      using True IH [of "snd (os_Rename (pendingPath c f) (filterPath c f) d)"]
      by (simp add: applyUpdate_loop_pending del: applyUpdate_loop.simps)
  qed
qed

lemma applyUpdate_loop_append:
  "applyUpdate_loop c (xs @ ys) d =
     (fst (applyUpdate_loop c xs d) @ fst (applyUpdate_loop c ys (fst (snd (applyUpdate_loop c xs d)))),
      fst (snd (applyUpdate_loop c ys (fst (snd (applyUpdate_loop c xs d))))),
      snd (snd (applyUpdate_loop c xs d)) @ snd (snd (applyUpdate_loop c ys (fst (snd (applyUpdate_loop c xs d))))))"
proof (induction xs arbitrary: d)
  case Nil
  then show ?case by simp
next
  case (Cons f xs)
  then show ?case
    by (cases "pending f") (simp_all add: applyUpdate_loop_pending applyUpdate_loop_idle del: applyUpdate_loop.simps)
qed

subsection \<open>The scheduler's loop body when nothing is due\<close>

lemma getNextToUpdate_loop_None:
  "(\<And>f. f \<in> set xs \<Longrightarrow> \<not> (Enabled f \<and> Unix (nextUpdate f) \<le> Unix now)) \<Longrightarrow>
     getNextToUpdate_loop c now i xs = (None, xs)"
  by (induction xs arbitrary: i) auto

lemma updateFilters_body_nothing_due:
  "fst (getNextToUpdate fs t_scan) = None \<Longrightarrow>
     fst (updateFilters_body fs d t_scan t_id t_saved) = Panicked NilPointerDereference"
  by (cases "getNextToUpdate fs t_scan") (simp add: updateFilters_body_def deref_def)

text \<open>
  C1. When the scan finds no record, \<^verbatim>\<open>updateFilters\<close> does not reach the call of
  \<^verbatim>\<open>applyUpdate\<close> and the sleep: \<^verbatim>\<open>uf := *f\<close> dereferences the \<^verbatim>\<open>nil\<close> pointer first. The
  loop body panics on every store without records, and on a store whose only record is
  enabled and due an hour after the scan.
\<close>

theorem updateFilters_body_panics_when_nothing_due:
  "fst (updateFilters_body (fs\<lparr>conf := (conf fs)\<lparr>Proxylist := []\<rparr>\<rparr>) d t_scan t_id t_saved)
     = Panicked NilPointerDereference
   \<and> fst (updateFilters_body
        (a_store no_network [(a_filter 1 ''list'' ''http://a/list.txt'')\<lparr>nextUpdate := 7200000000000\<rparr>])
        d 3600000000000 3600000000000 3600000000000) = Panicked NilPointerDereference"
  by (simp add: updateFilters_body_def getNextToUpdate_def deref_def fixtures Unix_def)

subsection \<open>Modify, List and Delete\<close>

text \<open>
  C2. \<^verbatim>\<open>Modify\<close> gives the store back as it was, whatever its arguments: the fields are
  assigned in a copy of the record. On a store with the one record of URL
  \<^verbatim>\<open>http://a\<close>, enabled and named \<^verbatim>\<open>old\<close>, the call that disables it, renames it and moves
  it to \<^verbatim>\<open>http://b\<close> answers 6 (both change flags) and leaves the record as it was; the call
  that only renames it answers \<^verbatim>\<open>StatusNotFound\<close>, although the record is there.
\<close>

theorem Modify_leaves_store_unchanged:
  "snd (Modify fs url enabled name newURL) = fs
   \<and> Modify (a_store no_network [a_filter 1 ''old'' ''http://a'']) ''http://a'' False ''new'' ''http://b''
       = (6, a_store no_network [a_filter 1 ''old'' ''http://a''])
   \<and> fst (Modify (a_store no_network [a_filter 1 ''old'' ''http://a'']) ''http://a'' True ''new'' ''http://a'')
       = StatusNotFound"
  by (simp add: Modify_def fixtures StatusChangedEnabled_def StatusChangedURL_def
      StatusNotFound_def split: prod.splits)

lemma foldl_append_one: "foldl (\<lambda>ff f. ff @ [g f]) acc xs = acc @ map g xs"
  by (induction xs arbitrary: acc) auto

text \<open>
  C3. \<^verbatim>\<open>List\<close> returns twice as many entries as the store has records: first one zero
  record for each, then the records with their paths. For a store with one record of id 1
  it returns two entries, the first of them the zero record.
\<close>

theorem List_prepends_zero_records:
  "List fs flags = replicate (length (Proxylist (conf fs))) zero_Filter
       @ map (\<lambda>f. f\<lparr>Path := filterPath (conf fs) f\<rparr>) (Proxylist (conf fs))
   \<and> length (List fs flags) = 2 * length (Proxylist (conf fs))
   \<and> List (a_store no_network [a_filter 1 ''list'' ''http://a'']) 0
       = [zero_Filter, (a_filter 1 ''list'' ''http://a'')\<lparr>Path := ''d/1.txt''\<rparr>]"
  by (simp add: List_def foldl_append_one) (simp add: fixtures path_defs)

lemma Delete_loop_result:
  "Delete_loop url xs (nf, found, f) =
     (nf @ filter (\<lambda>x. URL x \<noteq> url) xs,
      found \<or> (\<exists>x \<in> set xs. URL x = url),
      if xs = [] then f else last xs)"
  by (induction xs arbitrary: nf found f) auto

lemma Delete_not_found:
  "(\<And>x. x \<in> set (Proxylist (conf fs)) \<Longrightarrow> URL x \<noteq> url) \<Longrightarrow> Delete fs url = (None, fs)"
  by (auto simp: Delete_def Delete_loop_result)

lemma Delete_found:
  assumes "x \<in> set (Proxylist (conf fs))" and "URL x = url"
  shows "Delete fs url =
    (Some ((last (Proxylist (conf fs)))\<lparr>Path := filterPath (conf fs) (last (Proxylist (conf fs)))\<rparr>),
     fs\<lparr>conf := (conf fs)\<lparr>Proxylist := filter (\<lambda>x. URL x \<noteq> url) (Proxylist (conf fs))\<rparr>\<rparr>)"
  using assms by (auto simp: Delete_def Delete_loop_result)

text \<open>
  C4. When a record matches, \<^verbatim>\<open>Delete\<close> removes every record of that URL and returns the
  last record of the collection, whichever record matched. From the store with record A
  (id 1, \<^verbatim>\<open>http://a\<close>) and record B (id 2, \<^verbatim>\<open>http://b\<close>), deleting \<^verbatim>\<open>http://a\<close> removes A
  and returns B with the path \<^verbatim>\<open>d/2.txt\<close> of B's file. From a store in which both records
  have the URL \<^verbatim>\<open>http://a\<close>, both are removed.
\<close>

theorem Delete_returns_last_record:
  "Delete (a_store no_network [a_filter 1 ''A'' ''http://a'', a_filter 2 ''B'' ''http://b'']) ''http://a''
     = (Some ((a_filter 2 ''B'' ''http://b'')\<lparr>Path := ''d/2.txt''\<rparr>),
        a_store no_network [a_filter 2 ''B'' ''http://b''])
   \<and> Delete (a_store no_network [a_filter 1 ''A'' ''http://a'', a_filter 2 ''B'' ''http://a'']) ''http://a''
     = (Some ((a_filter 2 ''B'' ''http://a'')\<lparr>Path := ''d/2.txt''\<rparr>), a_store no_network [])"
  by (simp add: Delete_def fixtures path_defs)

subsection \<open>The swap applier\<close>

lemmas swap_defs = swap_store_def swap_disk_def applyUpdate_def NotifyUsers_def os_Rename_def
  EventBeforeUpdate_def EventAfterUpdate_def Let_def

text \<open>
  C5, as the code has it. When \<^verbatim>\<open>applyUpdate\<close> runs with \<^verbatim>\<open>filtersUpdated\<close> set, every
  record that enters it with a \<^verbatim>\<open>newID\<close> that is not zero and not its \<^verbatim>\<open>ID\<close> leaves it with
  \<^verbatim>\<open>newID\<close> cleared and every other field, its \<^verbatim>\<open>ID\<close> included, as it was; and the file
  named by \<^verbatim>\<open>newID\<close> has been renamed onto the file named by \<^verbatim>\<open>ID\<close> (the rename is among
  the events, with its success). The collection keeps its length. When \<^verbatim>\<open>applyUpdate\<close>
  runs with \<^verbatim>\<open>filtersUpdated\<close> clear, it changes nothing and renames nothing.
\<close>

theorem applyUpdate_swaps_pending_records:
  assumes "applyUpdate fs d = (fs', d', evs)"
    and "i < length (Proxylist (conf fs))"
    and "newID (Proxylist (conf fs) ! i) \<noteq> 0"
    and "newID (Proxylist (conf fs) ! i) \<noteq> ID (Proxylist (conf fs) ! i)"
  shows "(filtersUpdated fs \<longrightarrow>
      length (Proxylist (conf fs')) = length (Proxylist (conf fs))
    \<and> Proxylist (conf fs') ! i = (Proxylist (conf fs) ! i)\<lparr>newID := 0\<rparr>
    \<and> ID (Proxylist (conf fs') ! i) = ID (Proxylist (conf fs) ! i)
    \<and> newID (Proxylist (conf fs') ! i) = 0
    \<and> (\<exists>ok. Renamed (filterPath (conf fs) (zero_Filter\<lparr>ID := newID (Proxylist (conf fs) ! i)\<rparr>))
               (filterPath (conf fs) (Proxylist (conf fs) ! i)) ok \<in> set evs))
    \<and> (\<not> filtersUpdated fs \<longrightarrow> fs' = fs \<and> d' = d \<and> evs = [])"
proof (cases "filtersUpdated fs")
  case False
  with assms(1) show ?thesis
    by (simp add: applyUpdate_def)
next
  case True
  let ?pl = "Proxylist (conf fs)" and ?c = "conf fs"
  have pl': "Proxylist (conf fs') = fst (applyUpdate_loop ?c ?pl d)"
    and evs: "evs = NotifyUsers fs EventBeforeUpdate @ snd (snd (applyUpdate_loop ?c ?pl d))
           @ NotifyUsers fs EventAfterUpdate"
    using True assms(1) by (auto simp: applyUpdate_def Let_def NotifyUsers_def split_beta)
  have p: "pending (?pl ! i)"
    using assms(3,4) by (simp add: pending_def)
  have rec: "Proxylist (conf fs') ! i = (?pl ! i)\<lparr>newID := 0\<rparr>"
    and len: "length (Proxylist (conf fs')) = length ?pl"
    using assms(2) p by (simp_all add: pl' applyUpdate_loop_records)
  obtain oks where oks: "length oks = length (filter pending ?pl)"
    and ev: "snd (snd (applyUpdate_loop ?c ?pl d)) =
       map2 (\<lambda>f ok. Renamed (pendingPath ?c f) (filterPath ?c f) ok) (filter pending ?pl) oks"
    using applyUpdate_loop_events [of ?pl ?c d] by blast
  have "?pl ! i \<in> set (filter pending ?pl)"
    using assms(2) p by simp
  then obtain k where k: "k < length (filter pending ?pl)" "filter pending ?pl ! k = ?pl ! i"
    unfolding in_set_conv_nth by blast
  then have "Renamed (pendingPath ?c (?pl ! i)) (filterPath ?c (?pl ! i)) (oks ! k)
      \<in> set (snd (snd (applyUpdate_loop ?c ?pl d)))"
    unfolding ev using oks by (force simp: in_set_conv_nth)
  then have "\<exists>ok. Renamed (pendingPath ?c (?pl ! i)) (filterPath ?c (?pl ! i)) ok \<in> set evs"
    unfolding evs by auto
  with rec len True show ?thesis
    by (simp add: pendingPath_def)
qed

theorem applyUpdate_swaps_pending_records_witness:
  "filtersUpdated swap_store
   \<and> 0 < length (Proxylist (conf swap_store))
   \<and> newID (Proxylist (conf swap_store) ! 0) \<noteq> 0
   \<and> newID (Proxylist (conf swap_store) ! 0) \<noteq> ID (Proxylist (conf swap_store) ! 0)
   \<and> Proxylist (conf (fst (applyUpdate swap_store swap_disk)))
       = [a_filter 1 ''list'' ''http://a'']
   \<and> Renamed ''d/2.txt'' ''d/1.txt'' True \<in> set (snd (snd (applyUpdate swap_store swap_disk)))"
proof -
  have h: "0 < length (Proxylist (conf swap_store))"
    "newID (Proxylist (conf swap_store) ! 0) \<noteq> 0"
    "newID (Proxylist (conf swap_store) ! 0) \<noteq> ID (Proxylist (conf swap_store) ! 0)"
    by (simp_all add: swap_store_def fixtures)
  have run: "applyUpdate swap_store swap_disk =
      (fst (applyUpdate swap_store swap_disk), fst (snd (applyUpdate swap_store swap_disk)),
       snd (snd (applyUpdate swap_store swap_disk)))"
    by simp
  show ?thesis
    using h applyUpdate_swaps_pending_records [OF run h]
    by (simp add: swap_defs fixtures path_defs)
qed

text \<open>
  The claim's "active id set to the pending id" fails: the record that enters with
  \<^verbatim>\<open>ID\<close> 1 and \<^verbatim>\<open>newID\<close> 2 leaves with \<^verbatim>\<open>ID\<close> 1; the new content is then in \<^verbatim>\<open>d/1.txt\<close>
  and \<^verbatim>\<open>d/2.txt\<close> is gone. With \<^verbatim>\<open>filtersUpdated\<close> clear the applier does nothing to that
  record.
\<close>

theorem applyUpdate_keeps_active_id_counterexample:
  "newID (Proxylist (conf swap_store) ! 0) = 2
   \<and> ID (Proxylist (conf swap_store) ! 0) = 1
   \<and> ID (Proxylist (conf (fst (applyUpdate swap_store swap_disk))) ! 0) = 1
   \<and> files (fst (snd (applyUpdate swap_store swap_disk))) ''d/1.txt'' = Some ''new''
   \<and> files (fst (snd (applyUpdate swap_store swap_disk))) ''d/2.txt'' = None
   \<and> applyUpdate (swap_store\<lparr>filtersUpdated := False\<rparr>) swap_disk
       = (swap_store\<lparr>filtersUpdated := False\<rparr>, swap_disk, [])"
  by (simp add: swap_defs fixtures path_defs)

lemma Users_AddUser: "Users (AddUser fs handler) = Users fs @ [handler]"
  by (simp add: AddUser_def)

text \<open>
  C8, as the code has it. What decides is the store's flag \<^verbatim>\<open>filtersUpdated\<close>. When it is
  set, the events of \<^verbatim>\<open>applyUpdate\<close> are: the call of every observer with
  \<^verbatim>\<open>EventBeforeUpdate\<close>, in the order of \<^verbatim>\<open>Users\<close> (the order of registration, as
  \<^verbatim>\<open>AddUser\<close> appends); then one rename for each record with a
  pending revision, in the order of the collection, whatever the success of each; then the
  call of every observer with \<^verbatim>\<open>EventAfterUpdate\<close>, in the same order. When it is clear
  there is no event, and the store and the disk stay as they were.
\<close>

theorem applyUpdate_notifications:
  assumes "applyUpdate fs d = (fs', d', evs)"
  shows "(filtersUpdated fs \<longrightarrow>
          (\<exists>oks. length oks = length (filter pending (Proxylist (conf fs))) \<and>
             evs = map (\<lambda>u. Notified u EventBeforeUpdate) (Users fs)
                 @ map2 (\<lambda>f ok. Renamed (pendingPath (conf fs) f) (filterPath (conf fs) f) ok)
                     (filter pending (Proxylist (conf fs))) oks
                 @ map (\<lambda>u. Notified u EventAfterUpdate) (Users fs)))
       \<and> (\<not> filtersUpdated fs \<longrightarrow> evs = [] \<and> fs' = fs \<and> d' = d)"
proof (cases "filtersUpdated fs")
  case False
  with assms show ?thesis
    by (simp add: applyUpdate_def)
next
  case True
  let ?pl = "Proxylist (conf fs)" and ?c = "conf fs"
  have evs: "evs = NotifyUsers fs EventBeforeUpdate @ snd (snd (applyUpdate_loop ?c ?pl d))
           @ NotifyUsers fs EventAfterUpdate"
    using True assms by (auto simp: applyUpdate_def Let_def NotifyUsers_def split_beta)
  obtain oks where oks: "length oks = length (filter pending ?pl)"
    and ev: "snd (snd (applyUpdate_loop ?c ?pl d)) =
       map2 (\<lambda>f ok. Renamed (pendingPath ?c f) (filterPath ?c f) ok) (filter pending ?pl) oks"
    using applyUpdate_loop_events [of ?pl ?c d] by blast
  with True evs show ?thesis
    by (auto simp: NotifyUsers_def)
qed

theorem applyUpdate_notifications_witness:
  "filtersUpdated swap_store
   \<and> snd (snd (applyUpdate swap_store swap_disk))
       = [Notified 10 EventBeforeUpdate, Notified 11 EventBeforeUpdate,
          Renamed ''d/2.txt'' ''d/1.txt'' True,
          Notified 10 EventAfterUpdate, Notified 11 EventAfterUpdate]
   \<and> \<not> filtersUpdated (swap_store\<lparr>filtersUpdated := False\<rparr>)
   \<and> snd (snd (applyUpdate (swap_store\<lparr>filtersUpdated := False\<rparr>) swap_disk)) = []"
proof -
  have run: "applyUpdate fs d = (fst (applyUpdate fs d), fst (snd (applyUpdate fs d)),
       snd (snd (applyUpdate fs d)))" for fs d
    by simp
  show ?thesis
    using applyUpdate_notifications [OF run [of swap_store swap_disk]]
      applyUpdate_notifications [OF run [of "swap_store\<lparr>filtersUpdated := False\<rparr>" swap_disk]]
    by (simp add: swap_defs fixtures path_defs)
qed

text \<open>
  The claim's "when no record has pending work, the applier fires no notifications" fails:
  with the flag set and no record with a pending revision (the record was refreshed and
  then replaced or deleted, or its new id was its active id), both notifications are sent.
\<close>

theorem applyUpdate_notifies_without_pending_record_counterexample:
  "filter pending (Proxylist (conf ((a_store no_network [a_filter 1 ''list'' ''http://a''])
       \<lparr>filtersUpdated := True, Users := [10]\<rparr>))) = []
   \<and> snd (snd (applyUpdate ((a_store no_network [a_filter 1 ''list'' ''http://a''])
       \<lparr>filtersUpdated := True, Users := [10]\<rparr>) swap_disk))
      = [Notified 10 EventBeforeUpdate, Notified 10 EventAfterUpdate]"
  by (simp add: swap_defs fixtures pending_def)

subsection \<open>Add\<close>

lemma name_or_url_exists_iff:
  "name_or_url_exists nf pl \<longleftrightarrow> (\<exists>f \<in> set pl. Name f = Name nf \<or> URL f = URL nf)"
  by (induction pl) auto

lemma filterPath_cong:
  "FilterDir c = FilterDir c' \<Longrightarrow> ID f = ID g \<Longrightarrow> filterPath c f = filterPath c' g"
  by (simp add: filterPath_def)

lemma downloadFilter_no_body:
  "download (HTTPClient c) (URL f) = Inl e \<Longrightarrow>
     downloadFilter c f now d = (Some (CouldntDownload (URL f) e), f, d)"
  by (simp add: downloadFilter_def)

lemma downloadFilter_body:
  "download (HTTPClient c) (URL f) = Inr body \<Longrightarrow>
     downloadFilter c f now d =
       (if writable d (filterPath c f)
        then (None, f\<lparr>RuleCount := word_of_nat (count_rules body 0), LastUpdated := now\<rparr>,
              d\<lparr>files := (files d)(filterPath c f \<mapsto> body)\<rparr>)
        else (Some WriteError, f\<lparr>RuleCount := word_of_nat (count_rules body 0)\<rparr>, d))"
  by (simp add: downloadFilter_def parseFilter_def SafeWrite_def filterPath_def)

lemma downloadFilter_frame:
  assumes "downloadFilter c f now d = (r, f', d')"
  shows "ID f' = ID f \<and> URL f' = URL f \<and> (\<forall>p. p \<noteq> filterPath c f \<longrightarrow> files d' p = files d p)"
proof (cases "download (HTTPClient c) (URL f)")
  case (Inl e)
  with assms show ?thesis
    by (simp add: downloadFilter_no_body)
next
  case (Inr body)
  with assms show ?thesis
    by (auto simp: downloadFilter_body split: if_splits)
qed
lemmas add_defs = add_store_def add_disk_def Add_def downloadFilter_def download_def
  parseFilter_def SafeWrite_def nextFilterID_def Unix_def Let_def

text \<open>
  C9, as the code has it. \<^verbatim>\<open>Add\<close> fails with the duplicate error when a record has the
  new record's name or URL, and leaves store and disk as they were. Otherwise, when the
  download fails it fails with that error, wrapped; when the body arrives it succeeds if
  the file can be written and fails with the write error if not. Every failure leaves
  store and disk as they were.
  On success the record is appended, enabled, with the id that \<^verbatim>\<open>nextFilterID\<close> gives: the
  clock's whole seconds, whether or not a record has that id already.
\<close>

theorem Add_outcomes:
  assumes "Add fs nf t_id t_saved d = (r, fs', d')"
  shows "((\<exists>f \<in> set (Proxylist (conf fs)). Name f = Name nf \<or> URL f = URL nf) \<longrightarrow>
            r = Some DuplicateFilter \<and> fs' = fs \<and> d' = d)
    \<and> ((\<forall>f \<in> set (Proxylist (conf fs)). Name f \<noteq> Name nf \<and> URL f \<noteq> URL nf) \<longrightarrow>
         (\<forall>e. download (HTTPClient (conf fs)) (URL nf) = Inl e \<longrightarrow>
            r = Some (CouldntDownload (URL nf) e))
       \<and> (\<forall>body. download (HTTPClient (conf fs)) (URL nf) = Inr body \<longrightarrow>
            r = (if writable d (filterPath (conf fs) (nf\<lparr>ID := nextFilterID t_id\<rparr>))
                 then None else Some WriteError))
       \<and> (r \<noteq> None \<longrightarrow> fs' = fs \<and> d' = d)
       \<and> (r = None \<longrightarrow>
            (\<exists>nf'. fs' = fs\<lparr>conf := (conf fs)\<lparr>Proxylist := Proxylist (conf fs) @ [nf']\<rparr>\<rparr>
               \<and> ID nf' = nextFilterID t_id \<and> Enabled nf'
               \<and> Name nf' = Name nf \<and> URL nf' = URL nf)))"
proof (cases "name_or_url_exists nf (Proxylist (conf fs))")
  case True
  with assms show ?thesis
    by (auto simp: Add_def name_or_url_exists_iff)
next
  case False
  let ?nf2 = "nf\<lparr>ID := nextFilterID t_id, Enabled := True\<rparr>"
  have path: "filterPath (conf fs) ?nf2 = filterPath (conf fs) (nf\<lparr>ID := nextFilterID t_id\<rparr>)"
    by (simp add: filterPath_def)
  have add: "(r, fs', d') = (case downloadFilter (conf fs) ?nf2 t_saved d of
        (Some err, nf3, d1) \<Rightarrow> (Some err, fs, d1)
      | (None, nf3, d1) \<Rightarrow>
          (None, fs\<lparr>conf := (conf fs)\<lparr>Proxylist := Proxylist (conf fs) @ [nf3]\<rparr>\<rparr>, d1))"
    using assms False by (simp add: Add_def)
  have nodup: "\<not> (\<exists>f \<in> set (Proxylist (conf fs)). Name f = Name nf \<or> URL f = URL nf)"
    using False by (simp add: name_or_url_exists_iff)
  show ?thesis
  proof (cases "download (HTTPClient (conf fs)) (URL nf)")
    case (Inl e)
    then have "downloadFilter (conf fs) ?nf2 t_saved d = (Some (CouldntDownload (URL nf) e), ?nf2, d)"
      using downloadFilter_no_body [of "conf fs" ?nf2 e t_saved d] by simp
    with add Inl nodup show ?thesis
      by auto
  next
    case (Inr body)
    then have "download (HTTPClient (conf fs)) (URL ?nf2) = Inr body"
      by simp
    note dl = downloadFilter_body [OF this, of t_saved d, unfolded path]
    show ?thesis
    proof (cases "writable d (filterPath (conf fs) (nf\<lparr>ID := nextFilterID t_id\<rparr>))")
      case True
      with add dl Inr nodup show ?thesis
        by auto
    next
      case nw: False
      with add dl Inr nodup show ?thesis
        by auto
    qed
  qed
qed

theorem Add_outcomes_witness:
  "fst (Add add_store (a_filter 0 ''B'' ''http://b'') 200000000000 201000000000 add_disk) = None
   \<and> map ID (Proxylist (conf (fst (snd
        (Add add_store (a_filter 0 ''B'' ''http://b'') 200000000000 201000000000 add_disk))))) = [100, 200]
   \<and> Add add_store (a_filter 0 ''B'' ''http://a'') 200000000000 201000000000 add_disk
       = (Some DuplicateFilter, add_store, add_disk)"
proof -
  have run: "Add fs nf t u d = (fst (Add fs nf t u d), fst (snd (Add fs nf t u d)),
      snd (snd (Add fs nf t u d)))" for fs nf t u d
    by simp
  show ?thesis
    using Add_outcomes [OF run [of add_store "a_filter 0 ''B'' ''http://b''" 200000000000 201000000000 add_disk]]
      Add_outcomes [OF run [of add_store "a_filter 0 ''B'' ''http://a''" 200000000000 201000000000 add_disk]]
    by (simp add: add_defs fixtures path_defs)
qed

text \<open>
  The claim's "fresh id" fails: added in second 100 to a store whose record has id 100,
  the new record gets id 100 as well, and its download replaces the other record's file.
\<close>

theorem Add_reuses_id_counterexample:
  "map ID (Proxylist (conf add_store)) = [100]
   \<and> files add_disk ''d/100.txt'' = Some ''ruleA''
   \<and> fst (Add add_store (a_filter 0 ''B'' ''http://b'') 100000000000 100000000000 add_disk) = None
   \<and> map ID (Proxylist (conf (fst (snd
        (Add add_store (a_filter 0 ''B'' ''http://b'') 100000000000 100000000000 add_disk))))) = [100, 100]
   \<and> files (snd (snd (Add add_store (a_filter 0 ''B'' ''http://b'') 100000000000 100000000000 add_disk)))
        ''d/100.txt'' = Some ''ruleB''"
  by (simp add: add_defs fixtures path_defs)

subsection \<open>The scheduler's loop body when a record is claimed\<close>

lemma getNextToUpdate_loop_Some:
  "getNextToUpdate_loop c now k xs = (Some i, xs') \<Longrightarrow>
     k \<le> i \<and> i - k < length xs \<and>
     xs' = xs[i - k := (xs ! (i - k))\<lparr>nextUpdate := now + updateInterval c\<rparr>]"
proof (induction xs arbitrary: k xs')
  case Nil
  then show ?case by simp
next
  case (Cons f xs)
  show ?case
  proof (cases "Enabled f \<and> Unix (nextUpdate f) \<le> Unix now")
    case True
    with Cons.prems show ?thesis by auto
  next
    case False
    obtain r ys where rec: "getNextToUpdate_loop c now (Suc k) xs = (r, ys)"
      by (cases "getNextToUpdate_loop c now (Suc k) xs")
    with False Cons.prems have r: "r = Some i" and xs': "xs' = f # ys"
      by auto
    from Cons.IH [OF rec [unfolded r]]
    have IH: "Suc k \<le> i" "i - Suc k < length xs"
      "ys = xs[i - Suc k := (xs ! (i - Suc k))\<lparr>nextUpdate := now + updateInterval c\<rparr>]"
      by auto
    from IH(1) have "i - k = Suc (i - Suc k)"
      by simp
    with IH xs' show ?thesis
      by simp
  qed
qed

lemma getNextToUpdate_Some:
  assumes "getNextToUpdate fs now = (Some i, fs1)"
  shows "i < length (Proxylist (conf fs)) \<and>
    fs1 = fs\<lparr>conf := (conf fs)\<lparr>Proxylist :=
      (Proxylist (conf fs))[i := (Proxylist (conf fs) ! i)\<lparr>nextUpdate := now + updateInterval (conf fs)\<rparr>]\<rparr>\<rparr>"
proof -
  obtain r pl where l: "getNextToUpdate_loop (conf fs) now 0 (Proxylist (conf fs)) = (r, pl)"
    by (cases "getNextToUpdate_loop (conf fs) now 0 (Proxylist (conf fs))")
  with assms have "r = Some i" and "fs1 = fs\<lparr>conf := (conf fs)\<lparr>Proxylist := pl\<rparr>\<rparr>"
    by (auto simp: getNextToUpdate_def)
  with getNextToUpdate_loop_Some [OF l [unfolded \<open>r = Some i\<close>]] show ?thesis
    by simp
qed

text \<open>The loop body after a record has been claimed: the download with the new id.\<close>

lemma updateFilters_body_claimed:
  assumes "getNextToUpdate fs t_scan = (Some i, fs1)"
  shows "updateFilters_body fs d t_scan t_id t_saved =
    (case downloadFilter (conf fs1) ((Proxylist (conf fs1) ! i)\<lparr>ID := nextFilterID t_id\<rparr>) t_saved d of
       (Some err, uf2, d1) \<Rightarrow> (DownloadFailed uf2 err, fs1, d1)
     | (None, uf2, d1) \<Rightarrow> (Updated uf2, modifyUpdated fs1 uf2, d1))"
  using assms by (simp add: updateFilters_body_def deref_def)
lemmas due_defs = due_store_def due_disk_def updateFilters_body_def getNextToUpdate_def deref_def
  downloadFilter_def download_def parseFilter_def SafeWrite_def nextFilterID_def Unix_def
  zero_time_def modifyUpdated_def updateInterval_def Let_def

text \<open>
  C6, as the code has it. When the scan claims record \<open>i\<close>, the download is made with the
  id \<^verbatim>\<open>nextFilterID\<close> gives, the clock's whole seconds at that moment. The loop body
  changes no file but the one that id names. So whenever that id differs from the
  record's active id, the file being served is left as it was.
\<close>

theorem scheduled_download_id:
  assumes "getNextToUpdate fs t_scan = (Some i, fs1)"
    and "updateFilters_body fs d t_scan t_id t_saved = (out, fs', d')"
  shows "(\<exists>uf. (out = Updated uf \<or> (\<exists>err. out = DownloadFailed uf err)) \<and> ID uf = nextFilterID t_id)
    \<and> (\<forall>p. p \<noteq> filterPath (conf fs) (zero_Filter\<lparr>ID := nextFilterID t_id\<rparr>) \<longrightarrow>
          files d' p = files d p)
    \<and> (nextFilterID t_id \<noteq> ID (Proxylist (conf fs) ! i) \<longrightarrow>
          files d' (filterPath (conf fs) (Proxylist (conf fs) ! i))
            = files d (filterPath (conf fs) (Proxylist (conf fs) ! i)))"
proof -
  let ?uf1 = "(Proxylist (conf fs1) ! i)\<lparr>ID := nextFilterID t_id\<rparr>"
  obtain r uf2 d1 where dl: "downloadFilter (conf fs1) ?uf1 t_saved d = (r, uf2, d1)"
    by (cases "downloadFilter (conf fs1) ?uf1 t_saved d")
  have dir: "FilterDir (conf fs1) = FilterDir (conf fs)"
    using getNextToUpdate_Some [OF assms(1)] by simp
  have path: "filterPath (conf fs1) ?uf1 = filterPath (conf fs) (zero_Filter\<lparr>ID := nextFilterID t_id\<rparr>)"
    by (rule filterPath_cong) (simp_all add: dir)
  from downloadFilter_frame [OF dl]
  have id: "ID uf2 = nextFilterID t_id"
    and frame: "\<forall>p. p \<noteq> filterPath (conf fs) (zero_Filter\<lparr>ID := nextFilterID t_id\<rparr>) \<longrightarrow>
        files d1 p = files d p"
    by (simp_all add: path)
  have out: "(out = Updated uf2 \<or> (\<exists>err. out = DownloadFailed uf2 err)) \<and> d' = d1"
    using assms(2) dl unfolding updateFilters_body_claimed [OF assms(1)]
    by (cases r) auto
  have "filterPath (conf fs) (Proxylist (conf fs) ! i)
      \<noteq> filterPath (conf fs) (zero_Filter\<lparr>ID := nextFilterID t_id\<rparr>)"
    if "nextFilterID t_id \<noteq> ID (Proxylist (conf fs) ! i)"
    using that filterPath_inj [of "conf fs" "Proxylist (conf fs) ! i" "zero_Filter\<lparr>ID := nextFilterID t_id\<rparr>"]
    by auto
  with id frame out show ?thesis
    by blast
qed

theorem scheduled_download_id_witness:
  "fst (getNextToUpdate due_store 500000000000) = Some 0
   \<and> nextFilterID 500000000000 \<noteq> ID (Proxylist (conf due_store) ! 0)
   \<and> files (snd (snd (updateFilters_body due_store due_disk 500000000000 500000000000 500000000000)))
        ''d/100.txt'' = Some ''old''
   \<and> files (snd (snd (updateFilters_body due_store due_disk 500000000000 500000000000 500000000000)))
        ''d/500.txt'' = Some ''new''"
proof -
  have scan: "getNextToUpdate due_store 500000000000
      = (Some 0, snd (getNextToUpdate due_store 500000000000))"
    by (simp add: due_defs fixtures)
  have run: "updateFilters_body fs d t u v = (fst (updateFilters_body fs d t u v),
      fst (snd (updateFilters_body fs d t u v)), snd (snd (updateFilters_body fs d t u v)))" for fs d t u v
    by simp
  show ?thesis
    using scheduled_download_id [OF scan run [of due_store due_disk 500000000000 500000000000 500000000000]]
    by (simp add: due_defs fixtures path_defs)
qed

text \<open>
  The claim's "the id chosen differs from the active id" fails: a record with active id
  100 that is refreshed in second 100 is downloaded with id 100, over the file being served.
\<close>

theorem scheduled_download_reuses_active_id_counterexample:
  "ID (Proxylist (conf due_store) ! 0) = 100
   \<and> files due_disk ''d/100.txt'' = Some ''old''
   \<and> fst (getNextToUpdate due_store 100000000000) = Some 0
   \<and> nextFilterID 100000000000 = 100
   \<and> files (snd (snd (updateFilters_body due_store due_disk 100000000000 100000000000 100000000000)))
        ''d/100.txt'' = Some ''new''"
  by (simp add: due_defs fixtures path_defs)

subsection \<open>Download, then swap\<close>

lemma filterPath_neq: "ID f \<noteq> ID g \<Longrightarrow> filterPath c f \<noteq> filterPath c g"
  using filterPath_inj by blast

lemma pendingPath_neq_filterPath: "newID f \<noteq> ID g \<Longrightarrow> pendingPath c f \<noteq> filterPath c g"
  unfolding pendingPath_def by (rule filterPath_neq) simp

lemma pendingPath_neq: "newID f \<noteq> newID g \<Longrightarrow> pendingPath c f \<noteq> pendingPath c g"
  unfolding pendingPath_def by (rule filterPath_neq) simp

lemma filterPath_neq_pendingPath: "ID f \<noteq> newID g \<Longrightarrow> filterPath c f \<noteq> pendingPath c g"
  unfolding pendingPath_def by (rule filterPath_neq) simp

lemma applyUpdate_loop_dir:
  "FilterDir c = FilterDir c' \<Longrightarrow> applyUpdate_loop c xs d = applyUpdate_loop c' xs d"
proof (induction xs arbitrary: d)
  case Nil
  then show ?case by simp
next
  case (Cons f xs)
  have "filterPath c g = filterPath c' g" for g
    using Cons.prems by (simp add: filterPath_def)
  with Cons show ?case
    by simp
qed

lemma os_Rename_moves:
  "files d src = Some body \<Longrightarrow> can_rename d src dst \<Longrightarrow>
     files (snd (os_Rename src dst d)) dst = Some body"
  by (simp add: os_Rename_def)

lemma os_Rename_can_rename: "can_rename (snd (os_Rename src dst d)) = can_rename d"
  by (simp add: os_Rename_def split: option.splits)

lemma applyUpdate_loop_can_rename:
  "can_rename (fst (snd (applyUpdate_loop c xs d))) = can_rename d"
proof (induction xs arbitrary: d)
  case Nil
  then show ?case by simp
next
  case (Cons f xs)
  then show ?case
    by (cases "pending f")
      (simp_all add: applyUpdate_loop_pending applyUpdate_loop_idle os_Rename_can_rename
        del: applyUpdate_loop.simps)
qed

text \<open>
  The swap of one record whose pending file is on the disk and may be renamed onto its
  active file, when no other record's active or pending id is this record's active or
  pending id.
\<close>

lemma applyUpdate_loop_swaps:
  assumes i: "i < length xs" and p: "pending (xs ! i)"
    and onDisk: "files d (pendingPath c (xs ! i)) = Some body"
    and permitted: "can_rename d (pendingPath c (xs ! i)) (filterPath c (xs ! i))"
    and others: "\<And>j. j < length xs \<Longrightarrow> j \<noteq> i \<Longrightarrow>
        ID (xs ! j) \<noteq> newID (xs ! i) \<and> newID (xs ! j) \<noteq> newID (xs ! i) \<and>
        ID (xs ! j) \<noteq> ID (xs ! i) \<and> newID (xs ! j) \<noteq> ID (xs ! i)"
  shows "files (fst (snd (applyUpdate_loop c xs d))) (filterPath c (xs ! i)) = Some body"
proof -
  let ?g = "xs ! i" and ?before = "take i xs" and ?after = "drop (Suc i) xs"
  have xs: "xs = ?before @ ?g # ?after"
    using i by (rule id_take_nth_drop)
  have before: "ID f \<noteq> newID ?g \<and> newID f \<noteq> newID ?g" if "f \<in> set ?before" for f
  proof -
    from that obtain j where "j < i" "f = xs ! j"
      using i by (auto simp: in_set_conv_nth)
    with others [of j] i show ?thesis by simp
  qed
  have after: "ID f \<noteq> ID ?g \<and> newID f \<noteq> ID ?g" if "f \<in> set ?after" for f
  proof -
    from that obtain k where "k < length xs - Suc i" "f = xs ! (Suc i + k)"
      by (auto simp: in_set_conv_nth)
    with others [of "Suc i + k"] show ?thesis by simp
  qed
  let ?d1 = "fst (snd (applyUpdate_loop c ?before d))"
  have "files ?d1 (pendingPath c ?g) = files d (pendingPath c ?g)"
  proof (rule applyUpdate_loop_frame)
    fix f
    assume "f \<in> set ?before"
    with before [of f]
    show "pendingPath c f \<noteq> pendingPath c ?g \<and> filterPath c f \<noteq> pendingPath c ?g"
      by (simp add: pendingPath_neq filterPath_neq_pendingPath)
  qed
  with onDisk have d1: "files ?d1 (pendingPath c ?g) = Some body"
    by simp
  have perm1: "can_rename ?d1 (pendingPath c ?g) (filterPath c ?g)"
    using permitted by (simp add: applyUpdate_loop_can_rename)
  let ?d2 = "snd (os_Rename (pendingPath c ?g) (filterPath c ?g) ?d1)"
  have d2: "files ?d2 (filterPath c ?g) = Some body"
    using d1 perm1 by (rule os_Rename_moves)
  have "files (fst (snd (applyUpdate_loop c ?after ?d2))) (filterPath c ?g) = files ?d2 (filterPath c ?g)"
  proof (rule applyUpdate_loop_frame)
    fix f
    assume "f \<in> set ?after"
    with after [of f]
    show "pendingPath c f \<noteq> filterPath c ?g \<and> filterPath c f \<noteq> filterPath c ?g"
      by (simp add: pendingPath_neq_filterPath filterPath_neq)
  qed
  with d2 have "files (fst (snd (applyUpdate_loop c ?after ?d2))) (filterPath c ?g) = Some body"
    by simp
  moreover have "fst (snd (applyUpdate_loop c (?before @ ?g # ?after) d))
      = fst (snd (applyUpdate_loop c ?after ?d2))"
    using p by (simp add: applyUpdate_loop_append applyUpdate_loop_pending del: applyUpdate_loop.simps)
  ultimately show ?thesis
    using xs by metis
qed

lemma modifyUpdated_loop_first:
  "i < length xs \<Longrightarrow> URL (xs ! i) = URL uf \<Longrightarrow> (\<And>j. j < i \<Longrightarrow> URL (xs ! j) \<noteq> URL uf) \<Longrightarrow>
     modifyUpdated_loop uf xs =
       (True, xs[i := (xs ! i)\<lparr>newID := ID uf, RuleCount := RuleCount uf, LastUpdated := LastUpdated uf\<rparr>])"
proof (induction xs arbitrary: i)
  case Nil
  then show ?case by simp
next
  case (Cons f xs)
  show ?case
  proof (cases i)
    case 0
    with Cons.prems show ?thesis by simp
  next
    case (Suc k)
    have "URL f \<noteq> URL uf"
      using Cons.prems(3) [of 0] Suc by simp
    moreover have "modifyUpdated_loop uf xs =
       (True, xs[k := (xs ! k)\<lparr>newID := ID uf, RuleCount := RuleCount uf, LastUpdated := LastUpdated uf\<rparr>])"
    proof (rule Cons.IH)
      show "k < length xs" "URL (xs ! k) = URL uf"
        using Cons.prems(1,2) Suc by simp_all
      show "URL (xs ! j) \<noteq> URL uf" if "j < k" for j
        using Cons.prems(3) [of "Suc j"] that Suc by simp
    qed
    ultimately show ?thesis
      using Suc by simp
  qed
qed

subsection \<open>Passes between the download and the swap\<close>

lemma getNextToUpdate_loop_None_result:
  "getNextToUpdate_loop c now k xs = (None, xs') \<Longrightarrow> xs' = xs"
  by (induction xs arbitrary: k xs') (auto split: if_splits prod.splits)

lemma records_ok_update:
  assumes "records_ok i u a n pl" and "k < length pl" and "slot_ok i u a n k e"
  shows "records_ok i u a n (pl[k := e])"
  using assms by (auto simp: records_ok_def nth_list_update)

lemma slot_ok_nextUpdate [simp]:
  "slot_ok i u a n j (f\<lparr>nextUpdate := x\<rparr>) = slot_ok i u a n j f"
  by (simp add: slot_ok_def)

lemma getNextToUpdate_keeps:
  assumes "getNextToUpdate fs now = (r, fs1)"
  shows "FilterDir (conf fs1) = FilterDir (conf fs) \<and> HTTPClient (conf fs1) = HTTPClient (conf fs)
    \<and> filtersUpdated fs1 = filtersUpdated fs
    \<and> (records_ok i u a n (Proxylist (conf fs)) \<longrightarrow> records_ok i u a n (Proxylist (conf fs1)))"
proof (cases r)
  case None
  obtain pl where l: "getNextToUpdate_loop (conf fs) now 0 (Proxylist (conf fs)) = (None, pl)"
    using assms None by (auto simp: getNextToUpdate_def split: prod.splits)
  from getNextToUpdate_loop_None_result [OF l] assms l show ?thesis
    by (auto simp: getNextToUpdate_def)
next
  case (Some j)
  from getNextToUpdate_Some [OF assms [unfolded Some]]
  have j: "j < length (Proxylist (conf fs))"
    and fs1: "fs1 = fs\<lparr>conf := (conf fs)\<lparr>Proxylist := (Proxylist (conf fs))
        [j := (Proxylist (conf fs) ! j)\<lparr>nextUpdate := now + updateInterval (conf fs)\<rparr>]\<rparr>\<rparr>"
    by simp_all
  have "records_ok i u a n (Proxylist (conf fs1))" if ok: "records_ok i u a n (Proxylist (conf fs))"
    unfolding fs1 using records_ok_update [OF ok j, of "(Proxylist (conf fs) ! j)\<lparr>nextUpdate := now + updateInterval (conf fs)\<rparr>"] ok j
    by (simp add: records_ok_def)
  then show ?thesis
    by (simp add: fs1)
qed

lemma downloadFilter_cases:
  assumes "downloadFilter c f now d = (r, f', d')"
  shows "ID f' = ID f \<and> URL f' = URL f
    \<and> (r \<noteq> None \<longrightarrow> d' = d)
    \<and> (r = None \<longrightarrow> (\<exists>body. d' = d\<lparr>files := (files d)(filterPath c f \<mapsto> body)\<rparr>))"
proof (cases "download (HTTPClient c) (URL f)")
  case (Inl e)
  with assms show ?thesis
    by (auto simp: downloadFilter_no_body)
next
  case (Inr body)
  with assms show ?thesis
    by (auto simp: downloadFilter_body split: if_splits)
qed

lemma modifyUpdated_loop_result:
  "modifyUpdated_loop uf xs = (found, xs') \<Longrightarrow>
     (\<not> found \<and> xs' = xs) \<or>
     (found \<and> (\<exists>k < length xs. URL (xs ! k) = URL uf \<and>
        xs' = xs[k := (xs ! k)\<lparr>newID := ID uf, RuleCount := RuleCount uf, LastUpdated := LastUpdated uf\<rparr>]))"
proof (induction xs arbitrary: found xs')
  case Nil
  then show ?case by simp
next
  case (Cons f xs)
  show ?case
  proof (cases "URL f = URL uf")
    case True
    with Cons.prems show ?thesis
      by (intro disjI2) (auto intro: exI [of _ 0])
  next
    case False
    obtain fd ys where rec: "modifyUpdated_loop uf xs = (fd, ys)"
      by (cases "modifyUpdated_loop uf xs")
    with False Cons.prems have res: "found = fd" "xs' = f # ys"
      by auto
    from Cons.IH [OF rec] show ?thesis
    proof
      assume "\<not> fd \<and> ys = xs"
      with res show ?thesis by simp
    next
      assume "fd \<and> (\<exists>k < length xs. URL (xs ! k) = URL uf \<and>
        ys = xs[k := (xs ! k)\<lparr>newID := ID uf, RuleCount := RuleCount uf, LastUpdated := LastUpdated uf\<rparr>])"
      then obtain k where "fd" "k < length xs" "URL (xs ! k) = URL uf"
        "ys = xs[k := (xs ! k)\<lparr>newID := ID uf, RuleCount := RuleCount uf, LastUpdated := LastUpdated uf\<rparr>]"
        by blast
      with res show ?thesis
        by (intro disjI2) (auto intro: exI [of _ "Suc k"])
    qed
  qed
qed

lemma modifyUpdated_keeps:
  assumes "URL uf \<noteq> u" "ID uf \<noteq> n" "ID uf \<noteq> a"
  shows "FilterDir (conf (modifyUpdated fs uf)) = FilterDir (conf fs)
    \<and> (filtersUpdated fs \<longrightarrow> filtersUpdated (modifyUpdated fs uf))
    \<and> (records_ok i u a n (Proxylist (conf fs)) \<longrightarrow>
          records_ok i u a n (Proxylist (conf (modifyUpdated fs uf))))"
proof -
  obtain found pl where l: "modifyUpdated_loop uf (Proxylist (conf fs)) = (found, pl)"
    by (cases "modifyUpdated_loop uf (Proxylist (conf fs))")
  have "records_ok i u a n pl" if ok: "records_ok i u a n (Proxylist (conf fs))"
    using modifyUpdated_loop_result [OF l]
  proof
    assume "\<not> found \<and> pl = Proxylist (conf fs)"
    with ok show ?thesis by simp
  next
    let ?xs = "Proxylist (conf fs)"
    assume "found \<and> (\<exists>k < length ?xs. URL (?xs ! k) = URL uf \<and>
        pl = ?xs[k := (?xs ! k)\<lparr>newID := ID uf, RuleCount := RuleCount uf, LastUpdated := LastUpdated uf\<rparr>])"
    then obtain k where k: "k < length ?xs" "URL (?xs ! k) = URL uf"
      and pl: "pl = ?xs[k := (?xs ! k)\<lparr>newID := ID uf, RuleCount := RuleCount uf, LastUpdated := LastUpdated uf\<rparr>]"
      by blast
    have sk: "slot_ok i u a n k (?xs ! k)"
      using ok k(1) by (simp add: records_ok_def)
    have "k \<noteq> i"
      using sk k(2) assms(1) by (auto simp: slot_ok_def)
    with sk assms have "slot_ok i u a n k
        ((?xs ! k)\<lparr>newID := ID uf, RuleCount := RuleCount uf, LastUpdated := LastUpdated uf\<rparr>)"
      by (simp add: slot_ok_def)
    from records_ok_update [OF ok k(1) this] show ?thesis
      by (simp add: pl)
  qed
  with l show ?thesis
    by (auto simp: modifyUpdated_def)
qed

lemma pass_keeps_awaiting_swap:
  assumes inv: "awaiting_swap c0 d0 i F n body s"
    and apart: "case fst (pass s t) of
        Updated uf \<Rightarrow> URL uf \<noteq> URL F \<and> ID uf \<noteq> n \<and> ID uf \<noteq> ID F | _ \<Rightarrow> True"
  shows "awaiting_swap c0 d0 i F n body (snd (pass s t))"
proof -
  obtain fs d where s: "s = (fs, d)"
    by (cases s)
  obtain t_scan t_id t_saved where t: "t = (t_scan, t_id, t_saved)"
    by (cases t)
  obtain r fs1 where scan: "getNextToUpdate fs t_scan = (r, fs1)"
    by (cases "getNextToUpdate fs t_scan")
  note keep = getNextToUpdate_keeps [OF scan, of i "URL F" "ID F" n]
  have inv1: "awaiting_swap c0 d0 i F n body (fs1, d)"
    using inv keep by (simp add: awaiting_swap_def s)
  show ?thesis
  proof (cases r)
    case None
    then have "snd (pass s t) = (fs1, d)"
      using scan by (simp add: pass_def s t updateFilters_body_def deref_def)
    with inv1 show ?thesis by simp
  next
    case (Some j)
    let ?uf1 = "(Proxylist (conf fs1) ! j)\<lparr>ID := nextFilterID t_id\<rparr>"
    obtain r2 uf2 d1 where dl: "downloadFilter (conf fs1) ?uf1 t_saved d = (r2, uf2, d1)"
      by (cases "downloadFilter (conf fs1) ?uf1 t_saved d")
    note body = updateFilters_body_claimed [OF scan [unfolded Some], of d t_id t_saved]
    note dc = downloadFilter_cases [OF dl]
    show ?thesis
    proof (cases r2)
      case (Some e)
      then have "snd (pass s t) = (fs1, d1)" and "d1 = d"
        using dl dc by (simp_all add: pass_def s t body)
      with inv1 show ?thesis by simp
    next
      case None
      then have res: "pass s t = (Updated uf2, modifyUpdated fs1 uf2, d1)"
        using dl by (simp add: pass_def s t body)
      with apart have ap: "URL uf2 \<noteq> URL F" "ID uf2 \<noteq> n" "ID uf2 \<noteq> ID F"
        by simp_all
      obtain b where d1: "d1 = d\<lparr>files := (files d)(filterPath (conf fs1) ?uf1 \<mapsto> b)\<rparr>"
        using dc None by blast
      have dir: "FilterDir (conf fs1) = FilterDir c0"
        using inv1 by (simp add: awaiting_swap_def)
      have p: "filterPath (conf fs1) ?uf1 = filterPath c0 (zero_Filter\<lparr>ID := ID uf2\<rparr>)"
        using dc by (intro filterPath_cong) (simp_all add: dir)
      have "filterPath c0 (zero_Filter\<lparr>ID := ID uf2\<rparr>) \<noteq> filterPath c0 (zero_Filter\<lparr>ID := n\<rparr>)"
        "filterPath c0 (zero_Filter\<lparr>ID := ID uf2\<rparr>) \<noteq> filterPath c0 F"
        using ap by (simp_all add: filterPath_neq)
      then have disk: "files d1 (filterPath c0 (zero_Filter\<lparr>ID := n\<rparr>)) = files d (filterPath c0 (zero_Filter\<lparr>ID := n\<rparr>))"
        "files d1 (filterPath c0 F) = files d (filterPath c0 F)"
        "can_rename d1 = can_rename d"
        by (simp_all add: d1 p)
      note mk = modifyUpdated_keeps [OF ap, of fs1 i]
      from inv1 mk disk have "awaiting_swap c0 d0 i F n body (modifyUpdated fs1 uf2, d1)"
        by (simp add: awaiting_swap_def)
      with res show ?thesis by simp
    qed
  qed
qed

lemma run_passes_keep_awaiting_swap:
  "awaiting_swap c0 d0 i F n body s \<Longrightarrow> downloads_apart (URL F) n (ID F) s ts \<Longrightarrow>
     awaiting_swap c0 d0 i F n body (run_passes s ts)"
proof (induction ts arbitrary: s)
  case Nil
  then show ?case by simp
next
  case (Cons t ts)
  from Cons.prems(2) have
    "case fst (pass s t) of
        Updated uf \<Rightarrow> URL uf \<noteq> URL F \<and> ID uf \<noteq> n \<and> ID uf \<noteq> ID F | _ \<Rightarrow> True"
    and rest: "downloads_apart (URL F) n (ID F) (snd (pass s t)) ts"
    by simp_all
  from pass_keeps_awaiting_swap [OF Cons.prems(1) this(1)] rest Cons.IH show ?case
    by simp
qed

lemma downloads_apart_take:
  "downloads_apart u n a s ts \<Longrightarrow> downloads_apart u n a s (take k ts)"
proof (induction ts arbitrary: s k)
  case Nil
  then show ?case by simp
next
  case (Cons t ts)
  then show ?case
    by (cases k) simp_all
qed

lemmas two_defs = two_store_def two_disk_def a_site_def run_body_def pass_def applyUpdate_def
  NotifyUsers_def os_Rename_def


text \<open>
  C7, as the code has it. Let the scan claim record \<open>i\<close> and its download succeed, with a
  new id that is not zero, is not the record's active id, and is neither the active nor
  the pending id of another record; let no other record have this record's URL, or its
  active id as active or pending id. Let any number of further passes through the loop
  body follow, in which every download that succeeds is of another record's URL and under
  an id other than this record's new id and active id; and let the operating system permit
  the rename of the new file onto the record's active file. Then the record's active file
  is as it was after the download and after each of the further passes, and when
  \<^verbatim>\<open>applyUpdate\<close> runs after them, the record keeps its active id and its active file
  holds the downloaded body.
\<close>

theorem download_then_swap:
  assumes scan: "getNextToUpdate fs t_scan = (Some i, fs1)"
    and step: "updateFilters_body fs d t_scan t_id t_saved = (Updated uf, fs', d')"
    and new: "nextFilterID t_id \<noteq> 0" "nextFilterID t_id \<noteq> ID (Proxylist (conf fs) ! i)"
    and others: "\<forall>j < length (Proxylist (conf fs)). j \<noteq> i \<longrightarrow>
        URL (Proxylist (conf fs) ! j) \<noteq> URL (Proxylist (conf fs) ! i)
        \<and> ID (Proxylist (conf fs) ! j) \<noteq> nextFilterID t_id
        \<and> newID (Proxylist (conf fs) ! j) \<noteq> nextFilterID t_id
        \<and> ID (Proxylist (conf fs) ! j) \<noteq> ID (Proxylist (conf fs) ! i)
        \<and> newID (Proxylist (conf fs) ! j) \<noteq> ID (Proxylist (conf fs) ! i)"
    and later: "downloads_apart (URL (Proxylist (conf fs) ! i)) (nextFilterID t_id)
        (ID (Proxylist (conf fs) ! i)) (fs', d') ts"
    and permitted: "can_rename d (filterPath (conf fs) (zero_Filter\<lparr>ID := nextFilterID t_id\<rparr>))
        (filterPath (conf fs) (Proxylist (conf fs) ! i))"
    and swap: "applyUpdate (fst (run_passes (fs', d') ts)) (snd (run_passes (fs', d') ts))
        = (fs'', d'', evs)"
  shows "(\<forall>k \<le> length ts.
            files (snd (run_passes (fs', d') (take k ts))) (filterPath (conf fs) (Proxylist (conf fs) ! i))
              = files d (filterPath (conf fs) (Proxylist (conf fs) ! i)))
    \<and> ID (Proxylist (conf fs'') ! i) = ID (Proxylist (conf fs) ! i)
    \<and> (\<exists>body. download (HTTPClient (conf fs)) (URL (Proxylist (conf fs) ! i)) = Inr body
          \<and> files d'' (filterPath (conf fs) (Proxylist (conf fs) ! i)) = Some body)"
proof -
  let ?pl = "Proxylist (conf fs)" and ?c = "conf fs" and ?n = "nextFilterID t_id"
  let ?F = "?pl ! i"
  let ?F1 = "?F\<lparr>nextUpdate := t_scan + updateInterval ?c\<rparr>"
  let ?uf1 = "?F1\<lparr>ID := ?n\<rparr>"
  let ?pathA = "filterPath ?c ?F" and ?pathN = "filterPath ?c (zero_Filter\<lparr>ID := ?n\<rparr>)"
  from getNextToUpdate_Some [OF scan]
  have i: "i < length ?pl" and fs1: "fs1 = fs\<lparr>conf := ?c\<lparr>Proxylist := ?pl[i := ?F1]\<rparr>\<rparr>"
    by simp_all
  have c1: "FilterDir (conf fs1) = FilterDir ?c" "HTTPClient (conf fs1) = HTTPClient ?c"
    and pl1: "Proxylist (conf fs1) = ?pl[i := ?F1]"
    by (simp_all add: fs1)
  have uf1: "Proxylist (conf fs1) ! i = ?F1"
    using i by (simp add: pl1)
  have pathN: "filterPath (conf fs1) ?uf1 = ?pathN"
    by (rule filterPath_cong) (simp_all add: c1)
  have paths: "?pathA \<noteq> ?pathN"
    using new(2) by (intro filterPath_neq) simp
  \<comment> \<open>the download\<close>
  obtain r uf2 d1 where dl: "downloadFilter (conf fs1) ?uf1 t_saved d = (r, uf2, d1)"
    by (cases "downloadFilter (conf fs1) ?uf1 t_saved d")
  have res: "r = None" "uf = uf2" "fs' = modifyUpdated fs1 uf2" "d' = d1"
    using step dl unfolding updateFilters_body_claimed [OF scan] uf1
    by (cases r; simp)+
  obtain body where body: "download (HTTPClient ?c) (URL ?F) = Inr body"
    and wr: "writable d ?pathN"
    using dl res(1)
    by (cases "download (HTTPClient ?c) (URL ?F)")
      (auto simp: downloadFilter_no_body downloadFilter_body c1 pathN split: if_splits)
  have "download (HTTPClient (conf fs1)) (URL ?uf1) = Inr body"
    using body by (simp add: c1)
  from downloadFilter_body [OF this, of t_saved d] dl wr
  have uf2: "uf2 = ?uf1\<lparr>RuleCount := word_of_nat (count_rules body 0), LastUpdated := t_saved\<rparr>"
    and d1: "d1 = d\<lparr>files := (files d)(?pathN \<mapsto> body)\<rparr>"
    by (simp_all add: pathN)
  \<comment> \<open>the record gets its pending revision\<close>
  let ?G = "?F1\<lparr>newID := ?n, RuleCount := RuleCount uf2, LastUpdated := LastUpdated uf2\<rparr>"
  have "modifyUpdated_loop uf2 (?pl[i := ?F1]) = (True, (?pl[i := ?F1])[i := ?G])"
  proof -
    have "modifyUpdated_loop uf2 (?pl[i := ?F1]) =
        (True, (?pl[i := ?F1])[i := ((?pl[i := ?F1]) ! i)\<lparr>newID := ID uf2,
           RuleCount := RuleCount uf2, LastUpdated := LastUpdated uf2\<rparr>])"
    proof (rule modifyUpdated_loop_first)
      show "i < length (?pl[i := ?F1])"
        using i by simp
      show "URL ((?pl[i := ?F1]) ! i) = URL uf2"
        using i by (simp add: uf2)
      show "URL ((?pl[i := ?F1]) ! j) \<noteq> URL uf2" if "j < i" for j
        using that i others by (simp add: uf2)
    qed
    then show ?thesis
      using i by (simp add: uf2)
  qed
  then have fs': "fs' = fs1\<lparr>filtersUpdated := True, conf := (conf fs1)\<lparr>Proxylist := ?pl[i := ?G]\<rparr>\<rparr>"
    by (simp add: res modifyUpdated_def pl1)
  \<comment> \<open>what holds from here to the swap\<close>
  have "slot_ok i (URL ?F) (ID ?F) ?n j ((?pl[i := ?G]) ! j)" if "j < length ?pl" for j
    using that i others by (cases "j = i") (simp_all add: slot_ok_def)
  then have rec: "records_ok i (URL ?F) (ID ?F) ?n (?pl[i := ?G])"
    using i by (simp add: records_ok_def)
  have start: "awaiting_swap ?c d i ?F ?n body (fs', d')"
    using rec paths by (simp add: awaiting_swap_def fs' c1 res d1)
  have part1: "files (snd (run_passes (fs', d') (take k ts))) ?pathA = files d ?pathA" for k
    using run_passes_keep_awaiting_swap [OF start downloads_apart_take [OF later, of k]]
    by (simp add: awaiting_swap_def)
  \<comment> \<open>the swap\<close>
  let ?fs2 = "fst (run_passes (fs', d') ts)" and ?d2 = "snd (run_passes (fs', d') ts)"
  let ?pl2 = "Proxylist (conf ?fs2)"
  from run_passes_keep_awaiting_swap [OF start later]
  have dir2: "FilterDir (conf ?fs2) = FilterDir ?c" and flag2: "filtersUpdated ?fs2"
    and rec2: "records_ok i (URL ?F) (ID ?F) ?n ?pl2"
    and disk2: "files ?d2 ?pathN = Some body" "can_rename ?d2 = can_rename d"
    by (simp_all add: awaiting_swap_def)
  have i2: "i < length ?pl2" and G2: "ID (?pl2 ! i) = ID ?F" "newID (?pl2 ! i) = ?n"
    using rec2 by (auto simp: records_ok_def slot_ok_def)
  have other2: "ID (?pl2 ! j) \<noteq> ?n \<and> newID (?pl2 ! j) \<noteq> ?n \<and>
      ID (?pl2 ! j) \<noteq> ID ?F \<and> newID (?pl2 ! j) \<noteq> ID ?F" if "j < length ?pl2" "j \<noteq> i" for j
    using rec2 that by (auto simp: records_ok_def slot_ok_def)
  have paths2: "pendingPath ?c (?pl2 ! i) = ?pathN" "filterPath ?c (?pl2 ! i) = ?pathA"
    by (simp_all add: pendingPath_def filterPath_def G2)
  have dir': "FilterDir (conf (?fs2\<lparr>filtersUpdated := False\<rparr>)) = FilterDir ?c"
    by (simp add: dir2)
  have sw: "Proxylist (conf fs'') = fst (applyUpdate_loop ?c ?pl2 ?d2)"
    "d'' = fst (snd (applyUpdate_loop ?c ?pl2 ?d2))"
    using swap flag2 applyUpdate_loop_dir [OF dir', of ?pl2 ?d2]
    by (auto simp: applyUpdate_def Let_def split_beta)
  have pend2: "pending (?pl2 ! i)"
    using new by (simp add: pending_def G2)
  have "files (fst (snd (applyUpdate_loop ?c ?pl2 ?d2))) (filterPath ?c (?pl2 ! i)) = Some body"
  proof (rule applyUpdate_loop_swaps)
    show "i < length ?pl2"
      by (rule i2)
    show "pending (?pl2 ! i)"
      by (rule pend2)
    show "files ?d2 (pendingPath ?c (?pl2 ! i)) = Some body"
      by (simp add: paths2 disk2)
    show "can_rename ?d2 (pendingPath ?c (?pl2 ! i)) (filterPath ?c (?pl2 ! i))"
      using permitted by (simp add: paths2 disk2)
    show "ID (?pl2 ! j) \<noteq> newID (?pl2 ! i) \<and> newID (?pl2 ! j) \<noteq> newID (?pl2 ! i) \<and>
        ID (?pl2 ! j) \<noteq> ID (?pl2 ! i) \<and> newID (?pl2 ! j) \<noteq> ID (?pl2 ! i)"
      if "j < length ?pl2" "j \<noteq> i" for j
      using other2 [OF that] by (simp add: G2)
  qed
  then have part3: "files d'' ?pathA = Some body"
    by (simp add: sw paths2)
  have part2: "ID (Proxylist (conf fs'') ! i) = ID ?F"
    using i2 pend2 by (simp add: sw applyUpdate_loop_records G2)
  from part1 part2 part3 body show ?thesis
    by blast
qed

theorem download_then_swap_witness:
  "fst (getNextToUpdate two_store 500000000000) = Some 0
   \<and> downloads_apart ''http://a'' 500 1 (run_body (two_store, two_disk) 500000000000)
        [(600000000000, 600000000000, 600000000000)]
   \<and> map newID (Proxylist (conf (fst (run_passes (run_body (two_store, two_disk) 500000000000)
        [(600000000000, 600000000000, 600000000000)])))) = [500, 600]
   \<and> files (snd (run_passes (run_body (two_store, two_disk) 500000000000)
        [(600000000000, 600000000000, 600000000000)])) ''d/1.txt'' = Some ''oldA''
   \<and> files (fst (snd (applyUpdate
        (fst (run_passes (run_body (two_store, two_disk) 500000000000)
           [(600000000000, 600000000000, 600000000000)]))
        (snd (run_passes (run_body (two_store, two_disk) 500000000000)
           [(600000000000, 600000000000, 600000000000)]))))) ''d/1.txt'' = Some ''ruleA''"
proof -
  let ?s1 = "run_body (two_store, two_disk) 500000000000"
  let ?ts = "[(600000000000, 600000000000, 600000000000)] :: (time \<times> time \<times> time) list"
  have scan: "getNextToUpdate two_store 500000000000
      = (Some 0, snd (getNextToUpdate two_store 500000000000))"
    by (simp add: due_defs two_defs fixtures)
  have step: "updateFilters_body two_store two_disk 500000000000 500000000000 500000000000
      = (Updated ((a_filter 500 ''A'' ''http://a'')
           \<lparr>RuleCount := 1, LastUpdated := 500000000000, nextUpdate := 4100000000000\<rparr>),
         fst ?s1, snd ?s1)"
    by (simp add: due_defs two_defs fixtures path_defs count_rules_classify classify_def
        significant_def newline_def)
  have new: "nextFilterID 500000000000 \<noteq> 0"
    "nextFilterID 500000000000 \<noteq> ID (Proxylist (conf two_store) ! 0)"
    by (simp_all add: due_defs two_defs fixtures)
  have others: "\<forall>j < length (Proxylist (conf two_store)). j \<noteq> 0 \<longrightarrow>
        URL (Proxylist (conf two_store) ! j) \<noteq> URL (Proxylist (conf two_store) ! 0)
        \<and> ID (Proxylist (conf two_store) ! j) \<noteq> nextFilterID 500000000000
        \<and> newID (Proxylist (conf two_store) ! j) \<noteq> nextFilterID 500000000000
        \<and> ID (Proxylist (conf two_store) ! j) \<noteq> ID (Proxylist (conf two_store) ! 0)
        \<and> newID (Proxylist (conf two_store) ! j) \<noteq> ID (Proxylist (conf two_store) ! 0)"
    by (simp add: due_defs two_defs fixtures less_Suc_eq)
  have later: "downloads_apart (URL (Proxylist (conf two_store) ! 0)) (nextFilterID 500000000000)
        (ID (Proxylist (conf two_store) ! 0)) (fst ?s1, snd ?s1) ?ts"
    by (simp add: due_defs two_defs fixtures path_defs)
  have permitted: "can_rename two_disk
        (filterPath (conf two_store) (zero_Filter\<lparr>ID := nextFilterID 500000000000\<rparr>))
        (filterPath (conf two_store) (Proxylist (conf two_store) ! 0))"
    by (simp add: two_defs fixtures)
  have swap: "applyUpdate fs d = (fst (applyUpdate fs d), fst (snd (applyUpdate fs d)),
      snd (snd (applyUpdate fs d)))" for fs d
    by simp
  from download_then_swap [OF scan step new others later permitted swap]
  show ?thesis
    using scan by (simp add: two_defs due_defs fixtures path_defs)
qed


text \<open>
  The claim fails where ids meet, and where the rename fails. A record with active id 100
  that is refreshed in second 100 has its active file replaced by the download, before any
  swap. When records A and B are refreshed in the same second 100, both get the pending
  id 100, B's download replaces A's, and the swap moves B's body onto A's active file. When
  the operating system refuses the rename, or the download is made in second 0 (the id
  that stands for no pending revision), the active file still holds the old bytes after
  the swap.
\<close>

theorem download_then_swap_counterexample:
  "files due_disk ''d/100.txt'' = Some ''old''
   \<and> ID (Proxylist (conf due_store) ! 0) = 100
   \<and> files (snd (run_body (due_store, due_disk) 100000000000)) ''d/100.txt'' = Some ''new''
   \<and> map ID (Proxylist (conf two_store)) = [1, 2]
   \<and> map newID (Proxylist (conf (fst
        (run_body (run_body (two_store, two_disk) 100000000000) 100000000000)))) = [100, 100]
   \<and> files (fst (snd (applyUpdate
        (fst (run_body (run_body (two_store, two_disk) 100000000000) 100000000000))
        (snd (run_body (run_body (two_store, two_disk) 100000000000) 100000000000)))))
        ''d/1.txt'' = Some ''ruleB''
   \<and> files (fst (snd (applyUpdate
        (fst (run_body (two_store, two_disk\<lparr>can_rename := (\<lambda>p q. False)\<rparr>) 500000000000))
        (snd (run_body (two_store, two_disk\<lparr>can_rename := (\<lambda>p q. False)\<rparr>) 500000000000)))))
        ''d/1.txt'' = Some ''oldA''
   \<and> files (fst (snd (applyUpdate
        (fst (run_body (two_store, two_disk) 0)) (snd (run_body (two_store, two_disk) 0)))))
        ''d/1.txt'' = Some ''oldA''"
  by (simp add: two_defs due_defs fixtures path_defs)

end
